theory Spec2Isabelle
  imports Main
begin

section \<open>Values of the program\<close>

text \<open>
  The boards of \<^verbatim>\<open>services/gameLogic.js\<close> are JavaScript strings, one character per
  cell, \<^verbatim>\<open>'-'\<close> for an empty cell. Reading a string at an index outside of it yields
  \<^verbatim>\<open>undefined\<close>, and \<^verbatim>\<open>checkWinner\<close> answers \<^verbatim>\<open>null\<close> when no line is
  complete, so the values that occur are \<^verbatim>\<open>null\<close>, \<^verbatim>\<open>undefined\<close> and one-character
  strings.
\<close>

datatype jsval = Null | Undefined | Str char

text \<open>\<^verbatim>\<open>if (v)\<close> and \<^verbatim>\<open>!v\<close>: a one-character string is truthy, the other two are not.\<close>

fun truthy :: "jsval \<Rightarrow> bool" where
  "truthy Null = False"
| "truthy Undefined = False"
| "truthy (Str c) = True"

text \<open>
  The symbol parameters are documented as \<^verbatim>\<open>'X' or 'O'\<close>; the routes only ever pass
  these two (\<^verbatim>\<open>playerRole === 'player1' ? 'X' : 'O'\<close>,
  \<^verbatim>\<open>playerSymbol === 'X' ? 'O' : 'X'\<close>).
\<close>

datatype symbol = SymX | SymO

fun symChar :: "symbol \<Rightarrow> char" where
  "symChar SymX = CHR ''X''"
| "symChar SymO = CHR ''O''"

text \<open>\<^verbatim>\<open>board[i]\<close> for an integer \<open>i\<close>.\<close>

definition cellAt :: "string \<Rightarrow> int \<Rightarrow> jsval" where
  "cellAt board i =
     (if 0 \<le> i \<and> i < int (length board) then Str (board ! nat i) else Undefined)"

section \<open>services/gameLogic.js\<close>

definition WINNING_COMBINATIONS :: "(int \<times> int \<times> int) list" where
  "WINNING_COMBINATIONS =
     [(0, 1, 2), (3, 4, 5), (6, 7, 8),
      (0, 3, 6), (1, 4, 7), (2, 5, 8),
      (0, 4, 8), (2, 4, 6)]"

text \<open>The test of one triple inside the loop of \<^verbatim>\<open>checkWinner\<close>.\<close>

definition lineComplete :: "string \<Rightarrow> int \<times> int \<times> int \<Rightarrow> bool" where
  "lineComplete board t =
     (case t of (a, b, c) \<Rightarrow>
        cellAt board a \<noteq> Str CHR ''-'' \<and> cellAt board a = cellAt board b
        \<and> cellAt board b = cellAt board c)"

fun checkWinnerLoop :: "string \<Rightarrow> (int \<times> int \<times> int) list \<Rightarrow> jsval" where
  "checkWinnerLoop board [] = Null"
| "checkWinnerLoop board (t # rest) =
     (if lineComplete board t then cellAt board (fst t) else checkWinnerLoop board rest)"

definition checkWinner :: "string \<Rightarrow> jsval" where
  "checkWinner board = checkWinnerLoop board WINNING_COMBINATIONS"

definition isDraw :: "string \<Rightarrow> bool" where
  "isDraw board = (CHR ''-'' \<notin> set board \<and> \<not> truthy (checkWinner board))"

definition isValidMove :: "string \<Rightarrow> int \<Rightarrow> bool" where
  "isValidMove board position =
     (if position < 0 \<or> position > 8 then False
      else cellAt board position = Str CHR ''-'')"

text \<open>
  \<^verbatim>\<open>makeMove\<close> splits the string into an array, assigns one element and joins again.
  An assignment at a negative index sets a property that \<^verbatim>\<open>join\<close> does not see, and
  an assignment past the end leaves holes that \<^verbatim>\<open>join\<close> prints as nothing, so the
  symbol lands directly after the old board.
\<close>

definition makeMove :: "string \<Rightarrow> int \<Rightarrow> symbol \<Rightarrow> string" where
  "makeMove board position symbol =
     (if position < 0 then board
      else if position < int (length board) then board[nat position := symChar symbol]
      else board @ [symChar symbol])"

definition countMoves :: "string \<Rightarrow> int" where
  "countMoves board = int (length (filter (\<lambda>c. c \<noteq> CHR ''-'') board))"

definition getAvailableMoves :: "string \<Rightarrow> int list" where
  "getAvailableMoves board = filter (\<lambda>i. cellAt board i = Str CHR ''-'') [0..8]"

section \<open>Numbers of the search\<close>

text \<open>
  The scores of \<^verbatim>\<open>services/bot.js\<close> are small integers and the two infinities of
  JavaScript, which start the running maximum and minimum and the window.
\<close>

datatype jsnum = NegInfinity | Num int | Infinity

instantiation jsnum :: linorder
begin

fun less_eq_jsnum :: "jsnum \<Rightarrow> jsnum \<Rightarrow> bool" where
  "less_eq_jsnum NegInfinity y = True"
| "less_eq_jsnum (Num a) NegInfinity = False"
| "less_eq_jsnum (Num a) (Num b) = (a \<le> b)"
| "less_eq_jsnum (Num a) Infinity = True"
| "less_eq_jsnum Infinity NegInfinity = False"
| "less_eq_jsnum Infinity (Num b) = False"
| "less_eq_jsnum Infinity Infinity = True"

definition less_jsnum :: "jsnum \<Rightarrow> jsnum \<Rightarrow> bool" where
  "less_jsnum x y = (x \<le> y \<and> \<not> y \<le> x)"

instance
proof
  fix x y z :: jsnum
  show "(x < y) = (x \<le> y \<and> \<not> y \<le> x)"
    by (simp add: less_jsnum_def)
  show "x \<le> x"
    by (cases x) simp_all
  show "x \<le> y \<Longrightarrow> y \<le> z \<Longrightarrow> x \<le> z"
    by (cases x; cases y; cases z) simp_all
  show "x \<le> y \<Longrightarrow> y \<le> x \<Longrightarrow> x = y"
    by (cases x; cases y) simp_all
  show "x \<le> y \<or> y \<le> x"
    by (cases x; cases y) auto
qed

end

text \<open>Playing on an available cell leaves fewer available cells (the search ends).\<close>

lemma getAvailableMoves_makeMove_less:
  assumes mem: "p \<in> set (getAvailableMoves board)"
  shows "length (getAvailableMoves (makeMove board p s)) < length (getAvailableMoves board)"
proof -
  from mem have free: "cellAt board p = Str CHR ''-''"
    by (simp add: getAvailableMoves_def)
  have inb: "0 \<le> p" "p < int (length board)"
    using free by (auto simp: cellAt_def split: if_splits)
  have upd: "makeMove board p s = board[nat p := symChar s]"
    using inb by (simp add: makeMove_def)
  define B where "B = makeMove board p s"
  have sub: "cellAt B i = Str CHR ''-'' \<Longrightarrow> cellAt board i = Str CHR ''-''" for i
    unfolding B_def upd cellAt_def
    by (cases s; cases "nat i = nat p") (auto split: if_splits)
  have gone: "cellAt B p \<noteq> Str CHR ''-''"
    unfolding B_def upd cellAt_def using inb by (cases s) auto
  have "filter (\<lambda>i. cellAt B i = Str CHR ''-'') [0..8]
      = filter (\<lambda>i. cellAt B i = Str CHR ''-'')
          (filter (\<lambda>i. cellAt board i = Str CHR ''-'') [0..8])"
    unfolding filter_filter by (rule filter_cong) (auto dest: sub)
  then have "getAvailableMoves B
      = filter (\<lambda>i. cellAt B i = Str CHR ''-'') (getAvailableMoves board)"
    by (simp only: getAvailableMoves_def)
  then have "length (getAvailableMoves B) < length (getAvailableMoves board)"
    using length_filter_less [OF mem, of "\<lambda>i. cellAt B i = Str CHR ''-''"] gone
    by simp
  then show ?thesis
    by (simp only: B_def)
qed

section \<open>services/bot.js\<close>

text \<open>
  \<^verbatim>\<open>minimax\<close> with its two \<^verbatim>\<open>for ... of\<close> loops. A loop is a function of the index
  \<open>k\<close> of the iterator into \<^verbatim>\<open>availableMoves\<close> and of the variables the loop
  assigns (\<^verbatim>\<open>alpha\<close> or \<^verbatim>\<open>beta\<close>, and the running score); \<^verbatim>\<open>break\<close> returns the
  running score.
\<close>

function minimax :: "string \<Rightarrow> int \<Rightarrow> bool \<Rightarrow> jsnum \<Rightarrow> jsnum \<Rightarrow> symbol \<Rightarrow> symbol \<Rightarrow> jsnum"
  and maxLoop :: "string \<Rightarrow> int \<Rightarrow> nat \<Rightarrow> jsnum \<Rightarrow> jsnum \<Rightarrow> jsnum \<Rightarrow> symbol \<Rightarrow> symbol \<Rightarrow> jsnum"
  and minLoop :: "string \<Rightarrow> int \<Rightarrow> nat \<Rightarrow> jsnum \<Rightarrow> jsnum \<Rightarrow> jsnum \<Rightarrow> symbol \<Rightarrow> symbol \<Rightarrow> jsnum"
where
  "minimax board depth isMaximizing alpha beta botSymbol playerSymbol =
     (if checkWinner board = Str (symChar botSymbol) then Num (10 - depth)
      else if checkWinner board = Str (symChar playerSymbol) then Num (depth - 10)
      else if isDraw board then Num 0
      else if isMaximizing
        then maxLoop board depth 0 alpha beta NegInfinity botSymbol playerSymbol
        else minLoop board depth 0 alpha beta Infinity botSymbol playerSymbol)"
| "maxLoop board depth k alpha beta maxScore botSymbol playerSymbol =
     (if k < length (getAvailableMoves board) then
        (let position = getAvailableMoves board ! k;
             newBoard = makeMove board position botSymbol;
             score = minimax newBoard (depth + 1) False alpha beta botSymbol playerSymbol;
             maxScore' = max maxScore score;
             alpha' = max alpha score
         in if beta \<le> alpha' then maxScore'
            else maxLoop board depth (k + 1) alpha' beta maxScore' botSymbol playerSymbol)
      else maxScore)"
| "minLoop board depth k alpha beta minScore botSymbol playerSymbol =
     (if k < length (getAvailableMoves board) then
        (let position = getAvailableMoves board ! k;
             newBoard = makeMove board position playerSymbol;
             score = minimax newBoard (depth + 1) True alpha beta botSymbol playerSymbol;
             minScore' = min minScore score;
             beta' = min beta score
         in if beta' \<le> alpha then minScore'
            else minLoop board depth (k + 1) alpha beta' minScore' botSymbol playerSymbol)
      else minScore)"
  by pat_completeness auto
termination
proof (relation "inv_image (less_than <*lex*> less_than)
    (\<lambda>x. case x of
        Inl (board, _) \<Rightarrow>
          (length (getAvailableMoves board), Suc (length (getAvailableMoves board)))
      | Inr (Inl (board, _, k, _)) \<Rightarrow>
          (length (getAvailableMoves board), length (getAvailableMoves board) - k)
      | Inr (Inr (board, _, k, _)) \<Rightarrow>
          (length (getAvailableMoves board), length (getAvailableMoves board) - k))",
    goal_cases)
  case 1
  show ?case by (intro wf_inv_image wf_lex_prod wf_less_than)
next
  case 2
  show ?case by simp
next
  case 3
  show ?case by simp
next
  case 4
  then show ?case by (simp add: getAvailableMoves_makeMove_less)
next
  case 5
  then show ?case by auto
next
  case 6
  then show ?case by (simp add: getAvailableMoves_makeMove_less)
next
  case 7
  then show ?case by auto
qed

declare minimax.simps [simp del] maxLoop.simps [simp del] minLoop.simps [simp del]

text \<open>The last loop of \<^verbatim>\<open>findBestMove\<close>: the first strictly better score wins.\<close>

fun bestLoop :: "string \<Rightarrow> symbol \<Rightarrow> symbol \<Rightarrow> int list \<Rightarrow> int \<Rightarrow> jsnum \<Rightarrow> int" where
  "bestLoop board botSymbol playerSymbol [] bestMove bestScore = bestMove"
| "bestLoop board botSymbol playerSymbol (position # rest) bestMove bestScore =
     (let newBoard = makeMove board position botSymbol;
          score = minimax newBoard 0 False NegInfinity Infinity botSymbol playerSymbol
      in if bestScore < score
         then bestLoop board botSymbol playerSymbol rest position score
         else bestLoop board botSymbol playerSymbol rest bestMove bestScore)"

text \<open>
  \<^verbatim>\<open>findBestMove\<close>. The two loops that return the first position with an immediate
  win, then the first with an immediate block, are \<^const>\<open>find\<close>.
\<close>

definition findBestMove :: "string \<Rightarrow> symbol \<Rightarrow> symbol \<Rightarrow> int" where
  "findBestMove board botSymbol playerSymbol =
     (let availableMoves = getAvailableMoves board in
      if length availableMoves = 0 then - 1
      else if length availableMoves = 9 then 4
      else if length availableMoves = 8 \<and> cellAt board 4 = Str CHR ''-'' then 4
      else
        case find (\<lambda>position.
               checkWinner (makeMove board position botSymbol) = Str (symChar botSymbol))
             availableMoves of
          Some position \<Rightarrow> position
        | None \<Rightarrow>
           (case find (\<lambda>position.
                  checkWinner (makeMove board position playerSymbol) = Str (symChar playerSymbol))
                availableMoves of
              Some position \<Rightarrow> position
            | None \<Rightarrow>
                bestLoop board botSymbol playerSymbol availableMoves
                  (availableMoves ! 0) NegInfinity))"

record gameOver =
  go_isOver :: bool
  go_winner :: jsval
  go_isDraw :: bool

definition checkGameOver :: "string \<Rightarrow> gameOver" where
  "checkGameOver board =
     (let winner = checkWinner board; draw = isDraw board
      in \<lparr>go_isOver = (winner \<noteq> Null \<or> draw), go_winner = winner, go_isDraw = draw\<rparr>)"

section \<open>The search the specification describes\<close>

text \<open>
  Exhaustive minimax, as the specification words it: over the full remaining game tree,
  maximizing the score for the acting side and minimizing for the opponent; an
  acting-side win scores \<open>10 - depth\<close>, an opponent win \<open>depth - 10\<close>, a draw \<open>0\<close>.
  No window, no pruning.
\<close>

function exhaustive :: "string \<Rightarrow> int \<Rightarrow> bool \<Rightarrow> symbol \<Rightarrow> symbol \<Rightarrow> jsnum" where
  "exhaustive board depth isMaximizing botSymbol playerSymbol =
     (if checkWinner board = Str (symChar botSymbol) then Num (10 - depth)
      else if checkWinner board = Str (symChar playerSymbol) then Num (depth - 10)
      else if isDraw board then Num 0
      else if isMaximizing
        then foldr max
          (map (\<lambda>p. exhaustive (makeMove board p botSymbol) (depth + 1) False
                  botSymbol playerSymbol)
             (getAvailableMoves board)) NegInfinity
        else foldr min
          (map (\<lambda>p. exhaustive (makeMove board p playerSymbol) (depth + 1) True
                  botSymbol playerSymbol)
             (getAvailableMoves board)) Infinity)"
  by pat_completeness auto
termination
  by (relation "measure (\<lambda>(board, _). length (getAvailableMoves board))")
    (auto simp: getAvailableMoves_makeMove_less)

declare exhaustive.simps [simp del]

text \<open>
  The acting side does not lose under best play: it has, at each of its turns, a move
  after which this still holds, whatever the opponent answers. \<open>actingToMove\<close> says
  whose turn it is.
\<close>

function canAvoidLoss :: "string \<Rightarrow> bool \<Rightarrow> symbol \<Rightarrow> symbol \<Rightarrow> bool" where
  "canAvoidLoss board actingToMove actingSymbol opponentSymbol =
     (if checkWinner board = Str (symChar actingSymbol) then True
      else if checkWinner board = Str (symChar opponentSymbol) then False
      else if isDraw board then True
      else if actingToMove
        then list_ex (\<lambda>p. canAvoidLoss (makeMove board p actingSymbol) False
                actingSymbol opponentSymbol) (getAvailableMoves board)
        else list_all (\<lambda>p. canAvoidLoss (makeMove board p opponentSymbol) True
                actingSymbol opponentSymbol) (getAvailableMoves board))"
  by pat_completeness auto
termination
  by (relation "measure (\<lambda>(board, _). length (getAvailableMoves board))")
    (auto simp: getAvailableMoves_makeMove_less)

declare canAvoidLoss.simps [simp del]

text \<open>A board as the specification has it: nine cells, each empty, X or O.\<close>

definition wellFormed :: "string \<Rightarrow> bool" where
  "wellFormed board =
     (length board = 9 \<and> list_all (\<lambda>c. c = CHR ''-'' \<or> c = CHR ''X'' \<or> c = CHR ''O'') board)"


section \<open>The persisted rows\<close>

text \<open>
  The tables \<^verbatim>\<open>Room\<close>, \<^verbatim>\<open>Move\<close>, \<^verbatim>\<open>Spectator\<close>, \<^verbatim>\<open>BotGame\<close> and \<^verbatim>\<open>BotMove\<close> of
  the schema, without the identifiers and timestamps. \<^verbatim>\<open>version\<close> is an unbounded
  integer here; the column is a 32-bit \<^verbatim>\<open>INTEGER\<close>.
\<close>

type_synonym userId = string

datatype status = Waiting | InProgress | Finished

datatype role = Player1 | Player2

datatype actor = Player | Bot

record room =
  r_player1Id :: "userId option"
  r_player2Id :: "userId option"
  r_status :: status
  r_currentTurn :: "role option"
  r_board :: string
  r_winnerId :: "userId option"
  r_isDraw :: bool
  r_version :: int

record move =
  m_playerId :: userId
  m_position :: int
  m_symbol :: symbol
  m_moveOrder :: int

text \<open>A room with the rows that belong to it, in the order they were inserted.\<close>

record roomDb =
  d_room :: room
  d_moves :: "move list"
  d_spectators :: "userId list"

record botMove =
  bm_player :: actor
  bm_position :: int
  bm_symbol :: symbol
  bm_moveOrder :: int

record botGame =
  g_userId :: userId
  g_board :: string
  g_playerSymbol :: symbol
  g_currentTurn :: "actor option"
  g_status :: status
  g_winner :: "actor option"
  g_version :: int
  g_moves :: "botMove list"

datatype error =
    VALIDATION_FAILED
  | ROOM_NOT_FOUND
  | GAME_NOT_STARTED
  | GAME_FINISHED
  | VERSION_CONFLICT
  | NOT_A_PLAYER
  | NOT_YOUR_TURN
  | INVALID_MOVE
  | GAME_NOT_FOUND
  | NOT_YOUR_GAME

text \<open>
  The request validators of the two move routes: \<^verbatim>\<open>position\<close> an integer from 0 to 8,
  \<^verbatim>\<open>version\<close> optional and not negative.
\<close>

definition validRequest :: "int \<Rightarrow> int option \<Rightarrow> bool" where
  "validRequest position clientVersion =
     (0 \<le> position \<and> position \<le> 8
      \<and> (case clientVersion of None \<Rightarrow> True | Some v \<Rightarrow> 0 \<le> v))"

section \<open>routes/rooms.js\<close>

text \<open>\<^verbatim>\<open>POST /api/rooms\<close>: the columns not given take the defaults of the schema.\<close>

definition roomsCreate :: "userId \<Rightarrow> roomDb" where
  "roomsCreate userId =
     \<lparr>d_room = \<lparr>r_player1Id = Some userId, r_player2Id = None, r_status = Waiting,
         r_currentTurn = Some Player1, r_board = ''---------'', r_winnerId = None,
         r_isDraw = False, r_version = 0\<rparr>,
      d_moves = [], d_spectators = []\<rparr>"

text \<open>\<^verbatim>\<open>POST /api/rooms/:code/join\<close>. \<^verbatim>\<open>!room.player2Id\<close> holds for null and for ''.\<close>

definition roomsJoin :: "roomDb option \<Rightarrow> userId \<Rightarrow> error + roomDb" where
  "roomsJoin db userId =
     (case db of
        None \<Rightarrow> Inl ROOM_NOT_FOUND
      | Some d \<Rightarrow>
          let room = d_room d in
          if r_player1Id room = Some userId \<or> r_player2Id room = Some userId
             \<or> userId \<in> set (d_spectators d)
          then Inr d
          else if (r_player2Id room = None \<or> r_player2Id room = Some [])
                  \<and> r_status room = Waiting
          then Inr (d\<lparr>d_room := room\<lparr>r_player2Id := Some userId, r_status := InProgress\<rparr>\<rparr>)
          else Inr (d\<lparr>d_spectators := d_spectators d @ [userId]\<rparr>))"

text \<open>
  \<^verbatim>\<open>POST /api/rooms/:code/leave\<close>. The result \<open>None\<close> is the room deleted with its
  moves and spectators.
\<close>

definition roomsLeave :: "roomDb option \<Rightarrow> userId \<Rightarrow> error + roomDb option" where
  "roomsLeave db userId =
     (case db of
        None \<Rightarrow> Inl ROOM_NOT_FOUND
      | Some d \<Rightarrow>
          let room = d_room d in
          if r_player1Id room \<noteq> Some userId \<and> r_player2Id room \<noteq> Some userId
          then Inr (Some (d\<lparr>d_spectators := filter (\<lambda>u. u \<noteq> userId) (d_spectators d)\<rparr>))
          else if r_player1Id room = Some userId
          then Inr None
          else if r_status room = InProgress
          then Inr (Some (d\<lparr>d_room := room\<lparr>r_status := Finished,
                  r_winnerId := r_player1Id room, r_player2Id := None\<rparr>\<rparr>))
          else Inr (Some (d\<lparr>d_room := room\<lparr>r_player2Id := None, r_status := Waiting\<rparr>\<rparr>)))"

section \<open>routes/game.js\<close>

text \<open>
  \<^verbatim>\<open>POST /api/game/:roomId/move\<close>, the body of the transaction after the validators:
  first the part after the checks (from \<^verbatim>\<open>// Determine symbol\<close> to the end), which
  writes the room and the move, then the checks in front of it.
\<close>

definition gamePlay :: "roomDb \<Rightarrow> userId \<Rightarrow> role \<Rightarrow> int \<Rightarrow> roomDb" where
  "gamePlay d userId playerRole position =
     (let room = d_room d;
          symbol = (if playerRole = Player1 then SymX else SymO);
          newBoard = makeMove (r_board room) position symbol;
          winner = checkWinner newBoard;
          draw = isDraw newBoard;
          newStatus = (if truthy winner \<or> draw then Finished else InProgress);
          winnerId = (if truthy winner then Some userId else None);
          newCurrentTurn =
            (if truthy winner \<or> draw then None
             else if playerRole = Player1 then Some Player2 else Some Player1);
          moveCount = countMoves (r_board room)
      in d\<lparr>d_room := room\<lparr>r_board := newBoard, r_currentTurn := newCurrentTurn,
              r_status := newStatus, r_winnerId := winnerId, r_isDraw := draw,
              r_version := r_version room + 1\<rparr>,
            d_moves := d_moves d @
              [\<lparr>m_playerId = userId, m_position = position, m_symbol = symbol,
                m_moveOrder = moveCount + 1\<rparr>]\<rparr>)"

definition gameMove :: "roomDb option \<Rightarrow> userId \<Rightarrow> int \<Rightarrow> int option \<Rightarrow> error + roomDb" where
  "gameMove db userId position clientVersion =
     (if \<not> validRequest position clientVersion then Inl VALIDATION_FAILED
      else case db of
        None \<Rightarrow> Inl ROOM_NOT_FOUND
      | Some d \<Rightarrow>
          let room = d_room d in
          if r_status room = Waiting then Inl GAME_NOT_STARTED
          else if r_status room = Finished then Inl GAME_FINISHED
          else if clientVersion \<noteq> None \<and> clientVersion \<noteq> Some (r_version room)
          then Inl VERSION_CONFLICT
          else if r_player1Id room \<noteq> Some userId \<and> r_player2Id room \<noteq> Some userId
          then Inl NOT_A_PLAYER
          else
            let playerRole = (if r_player1Id room = Some userId then Player1 else Player2) in
            if r_currentTurn room \<noteq> Some playerRole then Inl NOT_YOUR_TURN
            else if \<not> isValidMove (r_board room) position then Inl INVALID_MOVE
            else Inr (gamePlay d userId playerRole position))"

section \<open>routes/bot.js\<close>

text \<open>
  \<^verbatim>\<open>POST /api/bot/create\<close>. Only \<^verbatim>\<open>goFirst === false\<close> lets the bot open; \<open>None\<close> is a
  request without a boolean \<^verbatim>\<open>goFirst\<close>.
\<close>

definition botCreate :: "userId \<Rightarrow> bool option \<Rightarrow> botGame" where
  "botCreate userId goFirst =
     (let playerSymbol = (if goFirst = Some False then SymO else SymX);
          botSymbol = (if playerSymbol = SymX then SymO else SymX)
      in if goFirst = Some False
         then
           let botMove = findBestMove ''---------'' botSymbol playerSymbol
           in \<lparr>g_userId = userId, g_board = makeMove ''---------'' botMove botSymbol,
                g_playerSymbol = playerSymbol, g_currentTurn = Some Player,
                g_status = InProgress, g_winner = None, g_version = 0,
                g_moves = [\<lparr>bm_player = Bot, bm_position = botMove, bm_symbol = botSymbol,
                            bm_moveOrder = 1\<rparr>]\<rparr>
         else \<lparr>g_userId = userId, g_board = ''---------'', g_playerSymbol = playerSymbol,
                g_currentTurn = Some Player, g_status = InProgress, g_winner = None,
                g_version = 0, g_moves = []\<rparr>)"

text \<open>
  \<^verbatim>\<open>POST /api/bot/:gameId/move\<close>, the body of the transaction after the validators:
  first the part after the checks (from \<^verbatim>\<open>const playerSymbol\<close> to the end), which
  plays the move of the player and, unless that ends the game, the move of the bot;
  then the checks in front of it. The result is the updated game and \<^verbatim>\<open>botMove\<close>
  (\<open>None\<close> for \<^verbatim>\<open>null\<close>).
\<close>

definition botPlay :: "botGame \<Rightarrow> int \<Rightarrow> botGame \<times> int option" where
  "botPlay game position =
     (let playerSymbol = g_playerSymbol game;
          botSymbol = (if playerSymbol = SymX then SymO else SymX);
          currentMoveOrder = int (length (g_moves game));
          playerBoard = makeMove (g_board game) position playerSymbol;
          playerRow = \<lparr>bm_player = Player, bm_position = position,
            bm_symbol = playerSymbol, bm_moveOrder = currentMoveOrder + 1\<rparr>;
          playerOver = checkGameOver playerBoard;
          botMove = (if go_isOver playerOver then None
                     else Some (findBestMove playerBoard botSymbol playerSymbol));
          newBoard = (case botMove of None \<Rightarrow> playerBoard
                      | Some p \<Rightarrow> makeMove playerBoard p botSymbol);
          botRows = (case botMove of None \<Rightarrow> []
                     | Some p \<Rightarrow> [\<lparr>bm_player = Bot, bm_position = p,
                         bm_symbol = botSymbol, bm_moveOrder = currentMoveOrder + 2\<rparr>]);
          gameOver = (case botMove of None \<Rightarrow> playerOver
                      | Some p \<Rightarrow> checkGameOver newBoard);
          winner = (if go_winner gameOver = Str (symChar playerSymbol) then Some Player
                    else if go_winner gameOver = Str (symChar botSymbol) then Some Bot
                    else None)
      in (game\<lparr>g_board := newBoard,
                g_currentTurn := (if go_isOver gameOver then None else Some Player),
                g_status := (if go_isOver gameOver then Finished else InProgress),
                g_winner := winner,
                g_version := g_version game + 1,
                g_moves := g_moves game @ [playerRow] @ botRows\<rparr>,
          botMove))"

definition botMoveRoute ::
  "botGame option \<Rightarrow> userId \<Rightarrow> int \<Rightarrow> int option \<Rightarrow> error + (botGame \<times> int option)" where
  "botMoveRoute db userId position clientVersion =
     (if \<not> validRequest position clientVersion then Inl VALIDATION_FAILED
      else case db of
        None \<Rightarrow> Inl GAME_NOT_FOUND
      | Some game \<Rightarrow>
          if g_userId game \<noteq> userId then Inl NOT_YOUR_GAME
          else if g_status game = Finished then Inl GAME_FINISHED
          else if g_currentTurn game \<noteq> Some Player then Inl NOT_YOUR_TURN
          else if clientVersion \<noteq> None \<and> clientVersion \<noteq> Some (g_version game)
          then Inl VERSION_CONFLICT
          else if \<not> isValidMove (g_board game) position then Inl INVALID_MOVE
          else Inr (botPlay game position))"

section \<open>Histories of accepted operations\<close>


inductive botReachable :: "botGame \<Rightarrow> bool" where
  botCreated: "botReachable (botCreate userId goFirst)"
| botMoved: "botReachable g \<Longrightarrow> botMoveRoute (Some g) userId position clientVersion = Inr (g', bm)
    \<Longrightarrow> botReachable g'"

section \<open>Calls that read the same row\<close>

text \<open>
  Every move request runs the handler of its route once, in a transaction of its own:
  \<^verbatim>\<open>findUnique\<close> reads the row, the checks of the route run on the row that was read and
  throw before anything is written, and the write is \<^verbatim>\<open>update\<close> with \<^verbatim>\<open>where: { id }\<close> alone,
  which puts no condition on \<^verbatim>\<open>version\<close>. The answers to calls that all read the same
  row are therefore the answers of the route on that row, call by call.
\<close>

definition gameMoveRace ::
  "roomDb \<Rightarrow> (userId \<times> int \<times> int option) list \<Rightarrow> (error + roomDb) list" where
  "gameMoveRace d calls =
     map (\<lambda>(userId, position, clientVersion). gameMove (Some d) userId position clientVersion)
       calls"

definition botMoveRace ::
  "botGame \<Rightarrow> (userId \<times> int \<times> int option) list \<Rightarrow> (error + botGame \<times> int option) list" where
  "botMoveRace game calls =
     map (\<lambda>(userId, position, clientVersion).
            botMoveRoute (Some game) userId position clientVersion) calls"

section \<open>Sample histories\<close>

text \<open>
  A room that alice created and bob joined, the same room after bob left it, and bot games
  of alice; in \<open>botGameReplied\<close> alice has played cell 0 of a new game and the bot has
  answered on cell 4.
\<close>

definition roomStarted :: roomDb where
  "roomStarted =
     \<lparr>d_room = \<lparr>r_player1Id = Some ''alice'', r_player2Id = Some ''bob'',
         r_status = InProgress, r_currentTurn = Some Player1, r_board = ''---------'',
         r_winnerId = None, r_isDraw = False, r_version = 0\<rparr>,
      d_moves = [], d_spectators = []\<rparr>"

definition roomForfeited :: roomDb where
  "roomForfeited =
     \<lparr>d_room = \<lparr>r_player1Id = Some ''alice'', r_player2Id = None,
         r_status = Finished, r_currentTurn = Some Player1, r_board = ''---------'',
         r_winnerId = Some ''alice'', r_isDraw = False, r_version = 0\<rparr>,
      d_moves = [], d_spectators = []\<rparr>"

definition botGameOpen :: botGame where
  "botGameOpen = botCreate ''alice'' None"

definition botGameDone :: botGame where
  "botGameDone = botGameOpen\<lparr>g_currentTurn := None, g_status := Finished\<rparr>"

definition botGameStuck :: botGame where
  "botGameStuck = botGameOpen\<lparr>g_currentTurn := Some Bot\<rparr>"

definition botGameReplied :: botGame where
  "botGameReplied =
     \<lparr>g_userId = ''alice'', g_board = ''X---O----'', g_playerSymbol = SymX,
      g_currentTurn = Some Player, g_status = InProgress, g_winner = None, g_version = 1,
      g_moves = [\<lparr>bm_player = Player, bm_position = 0, bm_symbol = SymX, bm_moveOrder = 1\<rparr>,
                 \<lparr>bm_player = Bot, bm_position = 4, bm_symbol = SymO, bm_moveOrder = 2\<rparr>]\<rparr>"



section \<open>Notions used in the statements\<close>

text \<open>
  Placing \<open>s\<close> at \<open>c\<close> completed a triple: one of the eight triples holds \<open>c\<close> and
  its three cells carry \<open>s\<close> on the board after the move.
\<close>

definition completesTriple :: "string \<Rightarrow> int \<Rightarrow> symbol \<Rightarrow> bool" where
  "completesTriple board c s =
     list_ex (\<lambda>(i, j, k). (c = i \<or> c = j \<or> c = k)
        \<and> cellAt (makeMove board c s) i = Str (symChar s)
        \<and> cellAt (makeMove board c s) j = Str (symChar s)
        \<and> cellAt (makeMove board c s) k = Str (symChar s)) WINNING_COMBINATIONS"

text \<open>
  The relation between the exact value \<open>v\<close> of a position and the result \<open>r\<close> of a
  search with the window from \<open>alpha\<close> to \<open>beta\<close> whose running score starts outside
  of the window: \<open>r\<close> is exact inside the window and a bound on the side it leaves it.
\<close>

definition withinWindow :: "jsnum \<Rightarrow> jsnum \<Rightarrow> jsnum \<Rightarrow> jsnum \<Rightarrow> bool" where
  "withinWindow alpha beta v r =
     ((r \<le> alpha \<longrightarrow> v \<le> r) \<and> (alpha < r \<and> r < beta \<longrightarrow> r = v) \<and> (beta \<le> r \<longrightarrow> r \<le> v))"

text \<open>The score that \<^verbatim>\<open>findBestMove\<close> computes for the root move \<open>p\<close>.\<close>

definition rootScore :: "string \<Rightarrow> symbol \<Rightarrow> symbol \<Rightarrow> int \<Rightarrow> jsnum" where
  "rootScore board botSymbol playerSymbol p =
     minimax (makeMove board p botSymbol) 0 False NegInfinity Infinity botSymbol playerSymbol"

text \<open>
  None of the shortcuts of \<^verbatim>\<open>findBestMove\<close> applies: the board is not empty, the
  centre is taken or more than one move was played, and no available cell wins at once
  for either side.
\<close>

definition noShortcut :: "string \<Rightarrow> symbol \<Rightarrow> symbol \<Rightarrow> bool" where
  "noShortcut board botSymbol playerSymbol =
     (length (getAvailableMoves board) \<noteq> 9
      \<and> \<not> (length (getAvailableMoves board) = 8 \<and> cellAt board 4 = Str CHR ''-'')
      \<and> list_all (\<lambda>p. checkWinner (makeMove board p botSymbol) \<noteq> Str (symChar botSymbol))
           (getAvailableMoves board)
      \<and> list_all (\<lambda>p. checkWinner (makeMove board p playerSymbol) \<noteq> Str (symChar playerSymbol))
           (getAvailableMoves board))"

section \<open>The winner of a board\<close>

lemma checkWinnerLoop_Null:
  "checkWinnerLoop board ts = Null \<Longrightarrow> t \<in> set ts \<Longrightarrow> length board = 9 \<Longrightarrow>
   set ts \<subseteq> set WINNING_COMBINATIONS \<Longrightarrow> \<not> lineComplete board t"
proof (induction ts)
  case Nil
  then show ?case by simp
next
  case (Cons u us)
  then show ?case
    by (auto simp: cellAt_def WINNING_COMBINATIONS_def split: if_splits)
qed

lemma checkWinnerLoop_found:
  "checkWinnerLoop board ts \<noteq> Null \<Longrightarrow>
   \<exists>t \<in> set ts. lineComplete board t \<and> checkWinnerLoop board ts = cellAt board (fst t)"
  by (induction ts) (auto split: if_splits)

lemma symChar_eq_iff [simp]: "(symChar s = symChar t) = (s = t)"
  by (cases s; cases t) simp_all

lemma symChar_not_empty [simp]: "symChar s \<noteq> CHR ''-''" "CHR ''-'' \<noteq> symChar s"
  by (cases s; simp)+

lemma available_cell:
  assumes "p \<in> set (getAvailableMoves board)"
  shows "0 \<le> p" "p \<le> 8" "cellAt board p = Str CHR ''-''" "p < int (length board)"
  using assms by (auto simp: getAvailableMoves_def cellAt_def split: if_splits)

lemma available_iff:
  "(p \<in> set (getAvailableMoves board)) = (0 \<le> p \<and> p \<le> 8 \<and> cellAt board p = Str CHR ''-'')"
  by (auto simp: getAvailableMoves_def)

lemma length_makeMove:
  "0 \<le> p \<Longrightarrow> p < int (length board) \<Longrightarrow> length (makeMove board p s) = length board"
  by (simp add: makeMove_def)

lemma cellAt_makeMove:
  assumes "length board = 9" "0 \<le> x" "x \<le> 8"
  shows "cellAt (makeMove board c s) x = (if x = c then Str (symChar s) else cellAt board x)"
  using assms by (auto simp: cellAt_def makeMove_def nth_append)

lemma winning_combination_range:
  "(i, j, k) \<in> set WINNING_COMBINATIONS \<Longrightarrow>
   0 \<le> i \<and> i \<le> 8 \<and> 0 \<le> j \<and> j \<le> 8 \<and> 0 \<le> k \<and> k \<le> 8"
  unfolding WINNING_COMBINATIONS_def by auto

lemma checkWinnerLoop_complete:
  "t \<in> set ts \<Longrightarrow> lineComplete board t \<Longrightarrow> checkWinnerLoop board ts \<noteq> Null"
  by (induction ts) (auto simp: cellAt_def)

lemma moved_winner:
  assumes len: "length board = 9" and none: "checkWinner board = Null"
    and won: "checkWinner (makeMove board c s) \<noteq> Null"
  shows "checkWinner (makeMove board c s) = Str (symChar s) \<and> completesTriple board c s"
proof -
  let ?B = "makeMove board c s"
  from won obtain t where t: "t \<in> set WINNING_COMBINATIONS" "lineComplete ?B t"
    and w: "checkWinner ?B = cellAt ?B (fst t)"
    unfolding checkWinner_def using checkWinnerLoop_found by blast
  have nt: "\<not> lineComplete board t"
    using none t(1) len checkWinnerLoop_Null [of board WINNING_COMBINATIONS t]
    unfolding checkWinner_def by simp
  obtain i j k where ijk: "t = (i, j, k)"
    by (cases t)
  note rng = winning_combination_range [OF t(1) [unfolded ijk]]
  have "(c = i \<or> c = j \<or> c = k) \<and> cellAt ?B i = Str (symChar s)
     \<and> cellAt ?B j = Str (symChar s) \<and> cellAt ?B k = Str (symChar s)"
    using t(2) nt rng unfolding ijk lineComplete_def
    by (auto simp: cellAt_makeMove [OF len] split: if_splits)
  then show ?thesis
    using w t(1) unfolding ijk completesTriple_def list_ex_iff
    by auto
qed

text \<open>
  Claim C6, as amended. On a board of nine cells that has no winner yet, a winner after
  \<^verbatim>\<open>makeMove(board, c, s)\<close> is \<open>s\<close>, and the placement completed one of the eight
  triples with three cells equal to \<open>s\<close>.
\<close>

theorem winner_after_move_completes_triple:
  assumes len: "length board = 9" and none: "checkWinner board = Null"
    and won: "checkWinner (makeMove board c s) \<noteq> Null"
  shows "checkWinner (makeMove board c s) = Str (symChar s) \<and> completesTriple board c s"
  using len none won by (rule moved_winner)

theorem winner_after_move_completes_triple_witness:
  "length ''XX-OO----'' = 9 \<and> checkWinner ''XX-OO----'' = Null
   \<and> checkWinner (makeMove ''XX-OO----'' 2 SymX) = Str CHR ''X''
   \<and> completesTriple ''XX-OO----'' 2 SymX"
proof -
  have a: "length ''XX-OO----'' = 9"
    by simp
  have b: "checkWinner ''XX-OO----'' = Null"
    by code_simp
  have c: "checkWinner (makeMove ''XX-OO----'' 2 SymX) \<noteq> Null"
    by code_simp
  from winner_after_move_completes_triple [OF a b c] a b show ?thesis
    by simp
qed

text \<open>
  Claim C6 as stated fails on a board that already has a winner: after X has the top row,
  O placed on the free corner completes nothing, and the winner of the new board is X.
\<close>

theorem winner_after_move_counterexample:
  "cellAt ''XXX-O-O--'' 8 = Str CHR ''-''
   \<and> checkWinner (makeMove ''XXX-O-O--'' 8 SymO) \<noteq> Null
   \<and> \<not> completesTriple ''XXX-O-O--'' 8 SymO"
  by code_simp

section \<open>Pruning does not change the value\<close>

lemma max_step_cut:
  fixes a b m s v V :: "'a::linorder"
  assumes "a < b" "m \<le> a"
    and s: "(s \<le> a \<longrightarrow> v \<le> s) \<and> (a < s \<and> s < b \<longrightarrow> s = v) \<and> (b \<le> s \<longrightarrow> s \<le> v)"
    and cut: "b \<le> max a s"
  shows "(max m s \<le> a \<longrightarrow> max m (max v V) \<le> max m s)
    \<and> (a < max m s \<and> max m s < b \<longrightarrow> max m s = max m (max v V))
    \<and> (b \<le> max m s \<longrightarrow> max m s \<le> max m (max v V))"
proof -
  from cut \<open>a < b\<close> have bs: "b \<le> s" by (auto simp: le_max_iff_disj)
  with s have sv: "s \<le> v" by simp
  from bs assms(1,2) have "m \<le> s" by order
  then have ms: "max m s = s" by (simp add: max_def)
  from bs \<open>a < b\<close> have "a < s" by order
  then have n1: "\<not> s \<le> a" by (simp add: not_le)
  from bs have n2: "\<not> s < b" by (simp add: not_less)
  from sv have "s \<le> max m (max v V)" by (simp add: le_max_iff_disj)
  with n1 n2 show ?thesis by (simp add: ms)
qed

lemma max_step_go:
  fixes a b m s v V r :: "'a::linorder"
  assumes "a < b" "m \<le> a"
    and s: "(s \<le> a \<longrightarrow> v \<le> s) \<and> (a < s \<and> s < b \<longrightarrow> s = v) \<and> (b \<le> s \<longrightarrow> s \<le> v)"
    and nocut: "\<not> b \<le> max a s"
    and r: "(r \<le> max a s \<longrightarrow> max (max m s) V \<le> r)
      \<and> (max a s < r \<and> r < b \<longrightarrow> r = max (max m s) V)
      \<and> (b \<le> r \<longrightarrow> r \<le> max (max m s) V)"
  shows "(r \<le> a \<longrightarrow> max m (max v V) \<le> r)
    \<and> (a < r \<and> r < b \<longrightarrow> r = max m (max v V))
    \<and> (b \<le> r \<longrightarrow> r \<le> max m (max v V))"
proof (intro conjI impI)
  from nocut have sb: "s < b" by (simp add: not_le)
  have vs: "v \<le> s" using s sb by (cases "s \<le> a") auto
  {
    assume "r \<le> a"
    then have "r \<le> max a s" by (simp add: le_max_iff_disj)
    with r have "max (max m s) V \<le> r" by simp
    then have "m \<le> r" "s \<le> r" "V \<le> r" by simp_all
    with vs show "max m (max v V) \<le> r" by simp
  next
    assume "b \<le> r"
    with r have "r \<le> max (max m s) V" by simp
    moreover have "m < r" "s < r" using \<open>b \<le> r\<close> sb assms(1,2) by order+
    ultimately have "r \<le> V" by (auto simp: le_max_iff_disj)
    then show "r \<le> max m (max v V)" by (simp add: le_max_iff_disj)
  next
    assume ar: "a < r \<and> r < b"
    show "r = max m (max v V)"
    proof (cases "r \<le> max a s")
      case True
      with r have "max (max m s) V \<le> r" by simp
      then have le: "m \<le> r" "s \<le> r" "V \<le> r" by simp_all
      from True ar have "r \<le> s" by (auto simp: le_max_iff_disj)
      with le have rs: "r = s" by simp
      with ar s have "s = v" by simp
      with rs le show ?thesis by (simp add: max_def)
    next
      case False
      then have lt: "a < r" "s < r" by (simp_all add: not_le)
      with r ar have req: "r = max (max m s) V" by simp
      have "m < r" using assms(2) lt by order
      have "max m s < r" using \<open>m < r\<close> lt by simp
      with req have rV: "r = V" by (auto simp: max_def split: if_splits)
      have "v \<le> V" "m \<le> V" using vs lt \<open>m < r\<close> unfolding rV by order+
      then show ?thesis unfolding rV by (simp add: max_absorb2)
    qed
  }
qed

lemma min_step_cut:
  fixes a b m s v V :: "'a::linorder"
  assumes "a < b" "b \<le> m"
    and s: "(s \<le> a \<longrightarrow> v \<le> s) \<and> (a < s \<and> s < b \<longrightarrow> s = v) \<and> (b \<le> s \<longrightarrow> s \<le> v)"
    and cut: "min b s \<le> a"
  shows "(min m s \<le> a \<longrightarrow> min m (min v V) \<le> min m s)
    \<and> (a < min m s \<and> min m s < b \<longrightarrow> min m s = min m (min v V))
    \<and> (b \<le> min m s \<longrightarrow> min m s \<le> min m (min v V))"
proof -
  from cut \<open>a < b\<close> have sa: "s \<le> a" by (auto simp: min_le_iff_disj)
  with s have vs: "v \<le> s" by simp
  from sa assms(1,2) have "s \<le> m" by order
  then have ms: "min m s = s" by (simp add: min_def)
  from sa \<open>a < b\<close> have "s < b" by order
  then have n1: "\<not> b \<le> s" by (simp add: not_le)
  from sa have n2: "\<not> a < s" by (simp add: not_less)
  from vs have "min m (min v V) \<le> s" by (simp add: min_le_iff_disj)
  with n1 n2 show ?thesis by (simp add: ms)
qed

lemma min_step_go:
  fixes a b m s v V r :: "'a::linorder"
  assumes "a < b" "b \<le> m"
    and s: "(s \<le> a \<longrightarrow> v \<le> s) \<and> (a < s \<and> s < b \<longrightarrow> s = v) \<and> (b \<le> s \<longrightarrow> s \<le> v)"
    and nocut: "\<not> min b s \<le> a"
    and r: "(r \<le> a \<longrightarrow> min (min m s) V \<le> r)
      \<and> (a < r \<and> r < min b s \<longrightarrow> r = min (min m s) V)
      \<and> (min b s \<le> r \<longrightarrow> r \<le> min (min m s) V)"
  shows "(r \<le> a \<longrightarrow> min m (min v V) \<le> r)
    \<and> (a < r \<and> r < b \<longrightarrow> r = min m (min v V))
    \<and> (b \<le> r \<longrightarrow> r \<le> min m (min v V))"
proof (intro conjI impI)
  from nocut have as: "a < s" by (simp add: not_le)
  have sv: "s \<le> v" using s as by (cases "b \<le> s") auto
  {
    assume "b \<le> r"
    then have "min b s \<le> r" by (simp add: min_le_iff_disj)
    with r have "r \<le> min (min m s) V" by simp
    then have "r \<le> m" "r \<le> s" "r \<le> V" by simp_all
    with sv show "r \<le> min m (min v V)" by simp
  next
    assume "r \<le> a"
    with r have "min (min m s) V \<le> r" by simp
    moreover have "r < m" "r < s" using \<open>r \<le> a\<close> as assms(1,2) by order+
    ultimately have "V \<le> r" by (auto simp: min_le_iff_disj)
    then show "min m (min v V) \<le> r" by (simp add: min_le_iff_disj)
  next
    assume ar: "a < r \<and> r < b"
    show "r = min m (min v V)"
    proof (cases "min b s \<le> r")
      case True
      with r have "r \<le> min (min m s) V" by simp
      then have le: "r \<le> m" "r \<le> s" "r \<le> V" by simp_all
      from True ar have "s \<le> r" by (auto simp: min_le_iff_disj)
      with le have rs: "r = s" by simp
      with ar s have "s = v" by simp
      with rs le show ?thesis by (simp add: min_def)
    next
      case False
      then have lt: "r < b" "r < s" by (simp_all add: not_le)
      with r ar have req: "r = min (min m s) V" by simp
      have "r < m" using assms(2) lt by order
      have "r < min m s" using \<open>r < m\<close> lt by simp
      with req have rV: "r = V" by (auto simp: min_def split: if_splits)
      have "V \<le> v" "V \<le> m" using sv lt \<open>r < m\<close> unfolding rV by order+
      then show ?thesis unfolding rV by (simp add: min_absorb2)
    qed
  }
qed

lemma NegInfinity_least [simp]: "NegInfinity \<le> (x::jsnum)"
  by simp

lemma Infinity_greatest [simp]: "(x::jsnum) \<le> Infinity"
  by (cases x) simp_all

lemma withinWindow_exact: "withinWindow alpha beta v v"
  by (simp add: withinWindow_def)

lemma minimax_terminal:
  "checkWinner board = Str (symChar botSymbol)
     \<or> checkWinner board = Str (symChar playerSymbol) \<or> isDraw board \<Longrightarrow>
   minimax board depth isMaximizing alpha beta botSymbol playerSymbol
     = exhaustive board depth isMaximizing botSymbol playerSymbol"
  apply (subst minimax.simps)
  apply (subst exhaustive.simps)
  apply auto
  done

lemma minimax_inner:
  assumes "checkWinner board \<noteq> Str (symChar botSymbol)"
    "checkWinner board \<noteq> Str (symChar playerSymbol)" "\<not> isDraw board"
  shows "minimax board depth isMaximizing alpha beta botSymbol playerSymbol
     = (if isMaximizing
        then maxLoop board depth 0 alpha beta NegInfinity botSymbol playerSymbol
        else minLoop board depth 0 alpha beta Infinity botSymbol playerSymbol)"
  using assms by (subst minimax.simps) simp

lemma exhaustive_inner:
  assumes "checkWinner board \<noteq> Str (symChar botSymbol)"
    "checkWinner board \<noteq> Str (symChar playerSymbol)" "\<not> isDraw board"
  shows "exhaustive board depth isMaximizing botSymbol playerSymbol
     = (if isMaximizing
        then foldr max
          (map (\<lambda>p. exhaustive (makeMove board p botSymbol) (depth + 1) False
                  botSymbol playerSymbol)
             (getAvailableMoves board)) NegInfinity
        else foldr min
          (map (\<lambda>p. exhaustive (makeMove board p playerSymbol) (depth + 1) True
                  botSymbol playerSymbol)
             (getAvailableMoves board)) Infinity)"
  using assms by (subst exhaustive.simps) simp

lemma maxLoop_done:
  "\<not> k < length (getAvailableMoves board) \<Longrightarrow>
   maxLoop board depth k alpha beta maxScore botSymbol playerSymbol = maxScore"
  by (subst maxLoop.simps) simp

lemma maxLoop_step:
  "k < length (getAvailableMoves board) \<Longrightarrow>
   maxLoop board depth k alpha beta maxScore botSymbol playerSymbol =
     (let score = minimax (makeMove board (getAvailableMoves board ! k) botSymbol) (depth + 1)
            False alpha beta botSymbol playerSymbol
      in if beta \<le> max alpha score then max maxScore score
         else maxLoop board depth (k + 1) (max alpha score) beta (max maxScore score)
                botSymbol playerSymbol)"
  by (subst maxLoop.simps) (simp add: Let_def)

lemma minLoop_done:
  "\<not> k < length (getAvailableMoves board) \<Longrightarrow>
   minLoop board depth k alpha beta minScore botSymbol playerSymbol = minScore"
  by (subst minLoop.simps) simp

lemma minLoop_step:
  "k < length (getAvailableMoves board) \<Longrightarrow>
   minLoop board depth k alpha beta minScore botSymbol playerSymbol =
     (let score = minimax (makeMove board (getAvailableMoves board ! k) playerSymbol) (depth + 1)
            True alpha beta botSymbol playerSymbol
      in if min beta score \<le> alpha then min minScore score
         else minLoop board depth (k + 1) alpha (min beta score) (min minScore score)
                botSymbol playerSymbol)"
  by (subst minLoop.simps) (simp add: Let_def)

lemma maxLoop_window:
  assumes child: "\<And>p a b. p \<in> set (getAvailableMoves board) \<Longrightarrow> a < b \<Longrightarrow>
      withinWindow a b
        (exhaustive (makeMove board p botSymbol) (depth + 1) False botSymbol playerSymbol)
        (minimax (makeMove board p botSymbol) (depth + 1) False a b botSymbol playerSymbol)"
  shows "alpha < beta \<Longrightarrow> maxScore \<le> alpha \<Longrightarrow>
     withinWindow alpha beta
       (max maxScore (foldr max
          (map (\<lambda>p. exhaustive (makeMove board p botSymbol) (depth + 1) False
                  botSymbol playerSymbol)
             (drop k (getAvailableMoves board))) NegInfinity))
       (maxLoop board depth k alpha beta maxScore botSymbol playerSymbol)"
proof (induction n \<equiv> "length (getAvailableMoves board) - k" arbitrary: k alpha maxScore)
  case 0
  then have "\<not> k < length (getAvailableMoves board)"
    by simp
  then show ?case
    by (simp add: maxLoop_done max_absorb1 withinWindow_exact)
next
  case (Suc n)
  let ?moves = "getAvailableMoves board"
  let ?ex = "\<lambda>p. exhaustive (makeMove board p botSymbol) (depth + 1) False
      botSymbol playerSymbol"
  from Suc.hyps(2) have klt: "k < length ?moves"
    by simp
  define p where "p = ?moves ! k"
  define s where "s = minimax (makeMove board p botSymbol) (depth + 1) False alpha beta
    botSymbol playerSymbol"
  define V where "V = foldr max (map ?ex (drop (Suc k) ?moves)) NegInfinity"
  have ab: "alpha < beta" and ma: "maxScore \<le> alpha"
    by (rule Suc.prems)+
  have dr: "drop k ?moves = p # drop (Suc k) ?moves"
    using klt by (simp add: p_def Cons_nth_drop_Suc)
  have val: "foldr max (map ?ex (drop k ?moves)) NegInfinity = max (?ex p) V"
    by (simp add: dr V_def)
  have "p \<in> set ?moves"
    using klt by (simp add: p_def)
  then have sw: "withinWindow alpha beta (?ex p) s"
    unfolding s_def by (rule child [OF _ ab])
  have step: "maxLoop board depth k alpha beta maxScore botSymbol playerSymbol =
      (if beta \<le> max alpha s then max maxScore s
       else maxLoop board depth (Suc k) (max alpha s) beta (max maxScore s)
              botSymbol playerSymbol)"
    unfolding s_def p_def by (subst maxLoop_step [OF klt]) (simp add: Let_def)
  show ?case
  proof (cases "beta \<le> max alpha s")
    case True
    then have res: "maxLoop board depth k alpha beta maxScore botSymbol playerSymbol
        = max maxScore s"
      by (simp add: step)
    show ?thesis
      unfolding res val withinWindow_def
      by (rule max_step_cut [OF ab ma sw [unfolded withinWindow_def] True])
  next
    case False
    define r where "r = maxLoop board depth (Suc k) (max alpha s) beta (max maxScore s)
      botSymbol playerSymbol"
    have res: "maxLoop board depth k alpha beta maxScore botSymbol playerSymbol = r"
      using False by (simp add: step r_def)
    have lt: "max alpha s < beta"
      using False by (simp add: not_le)
    have le: "max maxScore s \<le> max alpha s"
      by (rule max.mono [OF ma order_refl])
    have n: "n = length ?moves - Suc k"
      using Suc.hyps(2) by simp
    have rw: "withinWindow (max alpha s) beta (max (max maxScore s) V) r"
      unfolding r_def V_def by (rule Suc.hyps(1) [OF n lt le])
    show ?thesis
      unfolding res val withinWindow_def
      by (rule max_step_go [OF ab ma sw [unfolded withinWindow_def] False
            rw [unfolded withinWindow_def]])
  qed
qed

lemma minLoop_window:
  assumes child: "\<And>p a b. p \<in> set (getAvailableMoves board) \<Longrightarrow> a < b \<Longrightarrow>
      withinWindow a b
        (exhaustive (makeMove board p playerSymbol) (depth + 1) True botSymbol playerSymbol)
        (minimax (makeMove board p playerSymbol) (depth + 1) True a b botSymbol playerSymbol)"
  shows "alpha < beta \<Longrightarrow> beta \<le> minScore \<Longrightarrow>
     withinWindow alpha beta
       (min minScore (foldr min
          (map (\<lambda>p. exhaustive (makeMove board p playerSymbol) (depth + 1) True
                  botSymbol playerSymbol)
             (drop k (getAvailableMoves board))) Infinity))
       (minLoop board depth k alpha beta minScore botSymbol playerSymbol)"
proof (induction n \<equiv> "length (getAvailableMoves board) - k" arbitrary: k beta minScore)
  case 0
  then have "\<not> k < length (getAvailableMoves board)"
    by simp
  then show ?case
    by (simp add: minLoop_done min_absorb1 withinWindow_exact)
next
  case (Suc n)
  let ?moves = "getAvailableMoves board"
  let ?ex = "\<lambda>p. exhaustive (makeMove board p playerSymbol) (depth + 1) True
      botSymbol playerSymbol"
  from Suc.hyps(2) have klt: "k < length ?moves"
    by simp
  define p where "p = ?moves ! k"
  define s where "s = minimax (makeMove board p playerSymbol) (depth + 1) True alpha beta
    botSymbol playerSymbol"
  define V where "V = foldr min (map ?ex (drop (Suc k) ?moves)) Infinity"
  have ab: "alpha < beta" and bm: "beta \<le> minScore"
    by (rule Suc.prems)+
  have dr: "drop k ?moves = p # drop (Suc k) ?moves"
    using klt by (simp add: p_def Cons_nth_drop_Suc)
  have val: "foldr min (map ?ex (drop k ?moves)) Infinity = min (?ex p) V"
    by (simp add: dr V_def)
  have "p \<in> set ?moves"
    using klt by (simp add: p_def)
  then have sw: "withinWindow alpha beta (?ex p) s"
    unfolding s_def by (rule child [OF _ ab])
  have step: "minLoop board depth k alpha beta minScore botSymbol playerSymbol =
      (if min beta s \<le> alpha then min minScore s
       else minLoop board depth (Suc k) alpha (min beta s) (min minScore s)
              botSymbol playerSymbol)"
    unfolding s_def p_def by (subst minLoop_step [OF klt]) (simp add: Let_def)
  show ?case
  proof (cases "min beta s \<le> alpha")
    case True
    then have res: "minLoop board depth k alpha beta minScore botSymbol playerSymbol
        = min minScore s"
      by (simp add: step)
    show ?thesis
      unfolding res val withinWindow_def
      by (rule min_step_cut [OF ab bm sw [unfolded withinWindow_def] True])
  next
    case False
    define r where "r = minLoop board depth (Suc k) alpha (min beta s) (min minScore s)
      botSymbol playerSymbol"
    have res: "minLoop board depth k alpha beta minScore botSymbol playerSymbol = r"
      using False by (simp add: step r_def)
    have lt: "alpha < min beta s"
      using False by (simp add: not_le)
    have le: "min beta s \<le> min minScore s"
      by (rule min.mono [OF bm order_refl])
    have n: "n = length ?moves - Suc k"
      using Suc.hyps(2) by simp
    have rw: "withinWindow alpha (min beta s) (min (min minScore s) V) r"
      unfolding r_def V_def by (rule Suc.hyps(1) [OF n lt le])
    show ?thesis
      unfolding res val withinWindow_def
      by (rule min_step_go [OF ab bm sw [unfolded withinWindow_def] False
            rw [unfolded withinWindow_def]])
  qed
qed

lemma alphabeta_window:
  "alpha < beta \<Longrightarrow>
     withinWindow alpha beta
       (exhaustive board depth isMaximizing botSymbol playerSymbol)
       (minimax board depth isMaximizing alpha beta botSymbol playerSymbol)"
proof (induction board depth isMaximizing botSymbol playerSymbol arbitrary: alpha beta
    rule: exhaustive.induct)
  case (1 board depth isMaximizing botSymbol playerSymbol)
  show ?case
  proof (cases "checkWinner board = Str (symChar botSymbol)
      \<or> checkWinner board = Str (symChar playerSymbol) \<or> isDraw board")
    case True
    then show ?thesis
      by (simp only: minimax_terminal withinWindow_exact)
  next
    case False
    then have nt: "checkWinner board \<noteq> Str (symChar botSymbol)"
      "checkWinner board \<noteq> Str (symChar playerSymbol)" "\<not> isDraw board"
      by simp_all
    show ?thesis
    proof (cases isMaximizing)
      case True
      have "withinWindow alpha beta
         (max NegInfinity (foldr max
            (map (\<lambda>p. exhaustive (makeMove board p botSymbol) (depth + 1) False
                    botSymbol playerSymbol)
               (drop 0 (getAvailableMoves board))) NegInfinity))
         (maxLoop board depth 0 alpha beta NegInfinity botSymbol playerSymbol)"
        by (rule maxLoop_window [OF "1.IH"(1) [OF nt True] "1.prems"]) simp_all
      then show ?thesis
        using True by (simp add: minimax_inner [OF nt] exhaustive_inner [OF nt] max_absorb2)
    next
      case False
      have "withinWindow alpha beta
         (min Infinity (foldr min
            (map (\<lambda>p. exhaustive (makeMove board p playerSymbol) (depth + 1) True
                    botSymbol playerSymbol)
               (drop 0 (getAvailableMoves board))) Infinity))
         (minLoop board depth 0 alpha beta Infinity botSymbol playerSymbol)"
        by (rule minLoop_window [OF "1.IH"(2) [OF nt False] "1.prems"]) simp_all
      then show ?thesis
        using False by (simp add: minimax_inner [OF nt] exhaustive_inner [OF nt] min_absorb2)
    qed
  qed
qed

lemma minimax_full_window:
  "minimax board depth isMaximizing NegInfinity Infinity botSymbol playerSymbol
     = exhaustive board depth isMaximizing botSymbol playerSymbol"
proof -
  let ?v = "exhaustive board depth isMaximizing botSymbol playerSymbol"
  let ?r = "minimax board depth isMaximizing NegInfinity Infinity botSymbol playerSymbol"
  have lt: "NegInfinity < Infinity"
    by (simp add: less_jsnum_def)
  from alphabeta_window [OF lt, of board depth isMaximizing botSymbol playerSymbol]
  have w: "withinWindow NegInfinity Infinity ?v ?r"
    by simp
  show ?thesis
  proof (cases ?r)
    case NegInfinity
    with w have "?v \<le> NegInfinity" by (simp add: withinWindow_def)
    then have "?v = NegInfinity" by (cases ?v) simp_all
    with NegInfinity show ?thesis by simp
  next
    case (Num n)
    with w show ?thesis by (simp add: withinWindow_def less_jsnum_def)
  next
    case Infinity
    with w have "Infinity \<le> ?v" by (simp add: withinWindow_def)
    then have "?v = Infinity" by (cases ?v) simp_all
    with Infinity show ?thesis by simp
  qed
qed

text \<open>
  Claim C8. For every board, depth, side to move and pair of symbols, \<^verbatim>\<open>minimax\<close> called
  with the full window (\<^verbatim>\<open>-Infinity\<close>, \<^verbatim>\<open>Infinity\<close>) returns the score of the exhaustive
  search without pruning; this is the call \<^verbatim>\<open>findBestMove\<close> makes for every root move.
\<close>

theorem minimax_pruning_exact:
  "minimax board depth isMaximizing NegInfinity Infinity botSymbol playerSymbol
     = exhaustive board depth isMaximizing botSymbol playerSymbol"
  by (rule minimax_full_window)

section \<open>The routes\<close>

lemma roomsJoin_roomStarted:
  "roomsJoin (Some (roomsCreate ''alice'')) ''bob'' = Inr roomStarted"
  by (simp add: roomsJoin_def roomsCreate_def roomStarted_def Let_def)


lemma gameMove_roomStarted:
  "gameMove (Some roomStarted) ''alice'' 4 (Some 0)
     = Inr (gamePlay roomStarted ''alice'' Player1 4)"
  by (simp add: gameMove_def roomStarted_def validRequest_def isValidMove_def cellAt_def Let_def)

lemma roomsLeave_roomStarted:
  "roomsLeave (Some roomStarted) ''bob'' = Inr (Some roomForfeited)"
  by (simp add: roomsLeave_def roomStarted_def roomForfeited_def Let_def)

lemma gameMove_accepted:
  assumes "gameMove (Some d) userId position clientVersion = Inr d'"
  shows "\<exists>playerRole. d' = gamePlay d userId playerRole position
     \<and> isValidMove (r_board (d_room d)) position \<and> r_status (d_room d) = InProgress"
proof -
  have "r_status (d_room d) = InProgress"
    using assms
    by (cases "r_status (d_room d)") (simp_all add: gameMove_def Let_def split: if_splits)
  then show ?thesis
    using assms by (simp add: gameMove_def Let_def split: if_splits) blast+
qed

lemma botMoveRoute_accepted:
  "botMoveRoute (Some g) userId position clientVersion = Inr (g', bm) \<Longrightarrow>
   g' = fst (botPlay g position)"
  by (auto simp: botMoveRoute_def split: if_splits)


lemma botMoveRoute_botGameOpen:
  "botMoveRoute (Some botGameOpen) ''alice'' 0 (Some 0) = Inr (botGameReplied, Some 4)"
  by code_simp


text \<open>
  Claim C1 does not hold of the routes. Of \<open>n\<close> calls that all read the same row at the
  same version, the claim lets one commit and has the other \<open>n - 1\<close> answered with
  \<^verbatim>\<open>VERSION_CONFLICT\<close> or an earlier rule error. The version check of both routes compares
  the version of the client with the row the call itself has read, so \<open>n\<close> equal calls of
  alice on the started room, and on her new bot game, with the version 0 that each of them
  reads, are all accepted: every one of them gets the answer of a lone call, which writes
  the version 1, none gets an error, and the number of accepted calls is \<open>n\<close>, not 1.
\<close>

theorem same_version_calls_all_accepted:
  "gameMoveRace roomStarted (replicate n (''alice'', 4, Some 0))
     = replicate n (Inr (gamePlay roomStarted ''alice'' Player1 4))
   \<and> filter isl (gameMoveRace roomStarted (replicate n (''alice'', 4, Some 0))) = []
   \<and> length (filter (\<lambda>answer. \<not> isl answer)
         (gameMoveRace roomStarted (replicate n (''alice'', 4, Some 0)))) = n
   \<and> r_version (d_room (gamePlay roomStarted ''alice'' Player1 4))
       = r_version (d_room roomStarted) + 1
   \<and> botMoveRace botGameOpen (replicate n (''alice'', 0, Some 0))
       = replicate n (Inr (botGameReplied, Some 4))
   \<and> filter isl (botMoveRace botGameOpen (replicate n (''alice'', 0, Some 0))) = []
   \<and> length (filter (\<lambda>answer. \<not> isl answer)
         (botMoveRace botGameOpen (replicate n (''alice'', 0, Some 0)))) = n"
  by (simp add: gameMoveRace_def botMoveRace_def gameMove_roomStarted botMoveRoute_botGameOpen
      gamePlay_def Let_def)

text \<open>
  Claim C3 fails on the code. Bob leaves the room he plays in with alice: the room is
  finished, alice has won and the seat of player two is cleared, and \<^verbatim>\<open>currentTurn\<close>
  is still \<^verbatim>\<open>'player1'\<close>, because the update of the leave route does not write it.
\<close>

theorem forfeit_keeps_currentTurn:
  "r_status (d_room roomStarted) = InProgress
   \<and> r_player2Id (d_room roomStarted) = Some ''bob''
   \<and> (case roomsLeave (Some roomStarted) ''bob'' of
         Inr (Some d') \<Rightarrow>
           r_status (d_room d') = Finished \<and> r_winnerId (d_room d') = Some ''alice''
           \<and> r_player2Id (d_room d') = None
           \<and> r_currentTurn (d_room d') = Some Player1
       | _ \<Rightarrow> False)"
  by (simp add: roomStarted_def roomsLeave_def Let_def)

text \<open>
  Claim C4, as amended. The move route of a bot game checks, in this order: the owner
  (\<^verbatim>\<open>NOT_YOUR_GAME\<close>), a finished game (\<^verbatim>\<open>GAME_FINISHED\<close>), the turn
  (\<^verbatim>\<open>NOT_YOUR_TURN\<close>), and only then the version: \<^verbatim>\<open>VERSION_CONFLICT\<close> is reported
  exactly when the caller owns the game, the game is not finished, it is the turn of the
  player, and a version was supplied that differs from the stored one.
\<close>

theorem botMove_validation_order:
  assumes "validRequest position clientVersion"
  shows "(g_userId game \<noteq> userId \<longrightarrow>
           botMoveRoute (Some game) userId position clientVersion = Inl NOT_YOUR_GAME)
    \<and> (g_userId game = userId \<and> g_status game = Finished \<longrightarrow>
           botMoveRoute (Some game) userId position clientVersion = Inl GAME_FINISHED)
    \<and> (g_userId game = userId \<and> g_status game \<noteq> Finished
          \<and> g_currentTurn game \<noteq> Some Player \<longrightarrow>
           botMoveRoute (Some game) userId position clientVersion = Inl NOT_YOUR_TURN)
    \<and> (botMoveRoute (Some game) userId position clientVersion = Inl VERSION_CONFLICT \<longleftrightarrow>
           g_userId game = userId \<and> g_status game \<noteq> Finished
           \<and> g_currentTurn game = Some Player
           \<and> clientVersion \<noteq> None \<and> clientVersion \<noteq> Some (g_version game))"
  using assms by (auto simp: botMoveRoute_def Let_def)

theorem botMove_validation_order_witness:
  "validRequest 4 (Some 7)
   \<and> botMoveRoute (Some botGameDone) ''alice'' 4 (Some 7) = Inl GAME_FINISHED
   \<and> botMoveRoute (Some botGameStuck) ''alice'' 4 (Some 7) = Inl NOT_YOUR_TURN
   \<and> botMoveRoute (Some botGameOpen) ''alice'' 4 (Some 7) = Inl VERSION_CONFLICT
   \<and> botMoveRoute (Some botGameOpen) ''carol'' 4 (Some 7) = Inl NOT_YOUR_GAME"
proof -
  have v: "validRequest 4 (Some 7)"
    by (simp add: validRequest_def)
  show ?thesis
    using v
      botMove_validation_order [OF v, of botGameDone "''alice''"]
      botMove_validation_order [OF v, of botGameStuck "''alice''"]
      botMove_validation_order [OF v, of botGameOpen "''alice''"]
      botMove_validation_order [OF v, of botGameOpen "''carol''"]
    by (simp add: botGameDone_def botGameStuck_def botGameOpen_def botCreate_def)
qed

text \<open>
  Claim C4 as stated fails: a request of bob on the game of alice with a stale version is
  answered \<^verbatim>\<open>NOT_YOUR_GAME\<close>, not \<^verbatim>\<open>VERSION_CONFLICT\<close>.
\<close>

theorem botMove_validation_order_counterexample:
  "validRequest 4 (Some 7) \<and> g_userId botGameOpen \<noteq> ''bob''
   \<and> Some (g_version botGameOpen) \<noteq> Some 7
   \<and> botMoveRoute (Some botGameOpen) ''bob'' 4 (Some 7) \<noteq> Inl VERSION_CONFLICT
   \<and> botMoveRoute (Some botGameOpen) ''bob'' 4 (Some 7) = Inl NOT_YOUR_GAME"
  by (simp add: botMoveRoute_def botGameOpen_def botCreate_def validRequest_def)

text \<open>
  Claim C5, as amended. An accepted move increases \<^verbatim>\<open>version\<close> by exactly 1; a join
  (also the one that seats player two and starts the game) does not change it; and
  \<^verbatim>\<open>version\<close> never decreases across a move, a join or a leave that keeps the room.
\<close>

theorem version_steps:
  "(gameMove (Some d) userId position clientVersion = Inr d' \<longrightarrow>
       r_version (d_room d') = r_version (d_room d) + 1)
   \<and> (roomsJoin (Some d) userId = Inr d' \<longrightarrow> r_version (d_room d') = r_version (d_room d))
   \<and> (roomsLeave (Some d) userId = Inr (Some d') \<longrightarrow>
       r_version (d_room d) \<le> r_version (d_room d'))"
proof (intro conjI impI)
  assume "gameMove (Some d) userId position clientVersion = Inr d'"
  from gameMove_accepted [OF this] show "r_version (d_room d') = r_version (d_room d) + 1"
    by (auto simp: gamePlay_def Let_def)
next
  assume "roomsJoin (Some d) userId = Inr d'"
  then show "r_version (d_room d') = r_version (d_room d)"
    by (auto simp: roomsJoin_def Let_def split: if_splits)
next
  assume "roomsLeave (Some d) userId = Inr (Some d')"
  then show "r_version (d_room d) \<le> r_version (d_room d')"
    by (auto simp: roomsLeave_def Let_def split: if_splits)
qed

theorem version_steps_witness:
  "gameMove (Some roomStarted) ''alice'' 4 (Some 0)
     = Inr (gamePlay roomStarted ''alice'' Player1 4)
   \<and> r_version (d_room (gamePlay roomStarted ''alice'' Player1 4)) = 1
   \<and> roomsJoin (Some (roomsCreate ''alice'')) ''bob'' = Inr roomStarted
   \<and> r_version (d_room roomStarted) = 0
   \<and> roomsLeave (Some roomStarted) ''bob'' = Inr (Some roomForfeited)
   \<and> r_version (d_room roomStarted) \<le> r_version (d_room roomForfeited)"
  using version_steps [of roomStarted "''alice''" 4 "Some 0"
      "gamePlay roomStarted ''alice'' Player1 4"]
    version_steps [of "roomsCreate ''alice''" "''bob''" 4 "Some 0" roomStarted]
    version_steps [of roomStarted "''bob''" 4 "Some 0" roomForfeited]
    gameMove_roomStarted roomsJoin_roomStarted roomsLeave_roomStarted
  by (simp add: roomStarted_def roomsCreate_def)

text \<open>
  Claim C5 as stated fails: the join of bob seats him as player two and starts the game
  of alice, and \<^verbatim>\<open>version\<close> is 0 before and after.
\<close>

theorem version_steps_counterexample:
  "r_status (d_room (roomsCreate ''alice'')) = Waiting
   \<and> roomsJoin (Some (roomsCreate ''alice'')) ''bob'' = Inr roomStarted
   \<and> r_status (d_room roomStarted) = InProgress
   \<and> r_player2Id (d_room roomStarted) = Some ''bob''
   \<and> r_version (d_room roomStarted) \<noteq> r_version (d_room (roomsCreate ''alice'')) + 1"
  by (simp add: roomsJoin_def roomsCreate_def roomStarted_def Let_def)

section \<open>The turn of a bot game\<close>

text \<open>
  Claim C10. In every bot game that \<^verbatim>\<open>create\<close> and accepted moves produce, also when
  the bot opens, \<^verbatim>\<open>currentTurn\<close> is \<^verbatim>\<open>'player'\<close> while the game is in progress and null
  once it is finished; it is never the turn of the bot.
\<close>

theorem bot_turn_is_player_or_none:
  "botReachable g \<Longrightarrow>
   (g_currentTurn g = Some Player \<and> g_status g = InProgress)
   \<or> (g_currentTurn g = None \<and> g_status g = Finished)"
proof (induction rule: botReachable.induct)
  case (botCreated userId goFirst)
  show ?case by (simp add: botCreate_def Let_def)
next
  case (botMoved g userId position clientVersion g' bm)
  show ?case
    unfolding botMoveRoute_accepted [OF botMoved.hyps(2)]
    by (simp add: botPlay_def Let_def)
qed

theorem bot_turn_is_player_or_none_witness:
  "botReachable (botCreate ''alice'' (Some False))
   \<and> g_moves (botCreate ''alice'' (Some False))
       = [\<lparr>bm_player = Bot, bm_position = 4, bm_symbol = SymX, bm_moveOrder = 1\<rparr>]
   \<and> g_currentTurn (botCreate ''alice'' (Some False)) = Some Player"
proof -
  have b: "botReachable (botCreate ''alice'' (Some False))"
    by (rule botReachable.botCreated)
  have f: "findBestMove ''---------'' SymX SymO = 4"
    by code_simp
  from bot_turn_is_player_or_none [OF b] b show ?thesis
    by (auto simp: botCreate_def Let_def f)
qed

section \<open>The choice among the root moves\<close>

lemma bestLoop_first_maximum:
  "(\<forall>p \<in> set ms. rootScore board botSymbol playerSymbol p \<le> bestScore)
     \<and> bestLoop board botSymbol playerSymbol ms bestMove bestScore = bestMove
   \<or> (\<exists>k < length ms.
        bestLoop board botSymbol playerSymbol ms bestMove bestScore = ms ! k
        \<and> bestScore < rootScore board botSymbol playerSymbol (ms ! k)
        \<and> (\<forall>p \<in> set ms. rootScore board botSymbol playerSymbol p
               \<le> rootScore board botSymbol playerSymbol (ms ! k))
        \<and> (\<forall>j < k. rootScore board botSymbol playerSymbol (ms ! j)
               < rootScore board botSymbol playerSymbol (ms ! k)))"
proof (induction ms arbitrary: bestMove bestScore)
  case Nil
  show ?case by simp
next
  case (Cons q ms)
  let ?sc = "rootScore board botSymbol playerSymbol"
  show ?case
  proof (cases "bestScore < ?sc q")
    case True
    then have step: "bestLoop board botSymbol playerSymbol (q # ms) bestMove bestScore
        = bestLoop board botSymbol playerSymbol ms q (?sc q)"
      by (simp add: rootScore_def Let_def)
    from Cons.IH [where bestMove = q and bestScore = "?sc q"] show ?thesis
    proof (elim disjE conjE exE)
      assume all: "\<forall>p \<in> set ms. ?sc p \<le> ?sc q"
        and r: "bestLoop board botSymbol playerSymbol ms q (?sc q) = q"
      have "0 < length (q # ms) \<and> bestLoop board botSymbol playerSymbol (q # ms) bestMove bestScore
            = (q # ms) ! 0
          \<and> bestScore < ?sc ((q # ms) ! 0)
          \<and> (\<forall>p \<in> set (q # ms). ?sc p \<le> ?sc ((q # ms) ! 0))
          \<and> (\<forall>j < 0. ?sc ((q # ms) ! j) < ?sc ((q # ms) ! 0))"
        using True all r step by simp
      then show ?thesis by blast
    next
      fix k
      assume k: "k < length ms"
        and r: "bestLoop board botSymbol playerSymbol ms q (?sc q) = ms ! k"
        and gt: "?sc q < ?sc (ms ! k)"
        and all: "\<forall>p \<in> set ms. ?sc p \<le> ?sc (ms ! k)"
        and first: "\<forall>j < k. ?sc (ms ! j) < ?sc (ms ! k)"
      have lt: "\<forall>j < Suc k. ?sc ((q # ms) ! j) < ?sc ((q # ms) ! Suc k)"
      proof (intro allI impI)
        fix j assume "j < Suc k"
        then show "?sc ((q # ms) ! j) < ?sc ((q # ms) ! Suc k)"
          using gt first by (cases j) simp_all
      qed
      have "Suc k < length (q # ms)
          \<and> bestLoop board botSymbol playerSymbol (q # ms) bestMove bestScore = (q # ms) ! Suc k
          \<and> bestScore < ?sc ((q # ms) ! Suc k)
          \<and> (\<forall>p \<in> set (q # ms). ?sc p \<le> ?sc ((q # ms) ! Suc k))"
        using k r gt all True step by (auto intro: less_imp_le order_less_trans)
      with lt show ?thesis by blast
    qed
  next
    case False
    then have step: "bestLoop board botSymbol playerSymbol (q # ms) bestMove bestScore
        = bestLoop board botSymbol playerSymbol ms bestMove bestScore"
      by (simp add: rootScore_def Let_def)
    from False have qle: "?sc q \<le> bestScore"
      by (simp add: not_less)
    from Cons.IH [where bestMove = bestMove and bestScore = bestScore] show ?thesis
    proof (elim disjE conjE exE)
      assume "\<forall>p \<in> set ms. ?sc p \<le> bestScore"
        and "bestLoop board botSymbol playerSymbol ms bestMove bestScore = bestMove"
      then show ?thesis
        using qle step by simp
    next
      fix k
      assume k: "k < length ms"
        and r: "bestLoop board botSymbol playerSymbol ms bestMove bestScore = ms ! k"
        and gt: "bestScore < ?sc (ms ! k)"
        and all: "\<forall>p \<in> set ms. ?sc p \<le> ?sc (ms ! k)"
        and first: "\<forall>j < k. ?sc (ms ! j) < ?sc (ms ! k)"
      have qlt: "?sc q < ?sc (ms ! k)"
        using qle gt by (rule order_le_less_trans)
      have lt: "\<forall>j < Suc k. ?sc ((q # ms) ! j) < ?sc ((q # ms) ! Suc k)"
      proof (intro allI impI)
        fix j assume "j < Suc k"
        then show "?sc ((q # ms) ! j) < ?sc ((q # ms) ! Suc k)"
          using qlt first by (cases j) simp_all
      qed
      have "Suc k < length (q # ms)
          \<and> bestLoop board botSymbol playerSymbol (q # ms) bestMove bestScore = (q # ms) ! Suc k
          \<and> bestScore < ?sc ((q # ms) ! Suc k)
          \<and> (\<forall>p \<in> set (q # ms). ?sc p \<le> ?sc ((q # ms) ! Suc k))"
        using k r gt all qlt step by (auto intro: less_imp_le)
      with lt show ?thesis by blast
    qed
  qed
qed

lemma bestLoop_from_first:
  assumes "ms \<noteq> []"
  shows "\<exists>k < length ms.
      bestLoop board botSymbol playerSymbol ms (ms ! 0) NegInfinity = ms ! k
      \<and> (\<forall>p \<in> set ms. rootScore board botSymbol playerSymbol p
             \<le> rootScore board botSymbol playerSymbol (ms ! k))
      \<and> (\<forall>j < k. rootScore board botSymbol playerSymbol (ms ! j)
             < rootScore board botSymbol playerSymbol (ms ! k))"
proof -
  let ?sc = "rootScore board botSymbol playerSymbol"
  from bestLoop_first_maximum [where ms = ms and board = board and botSymbol = botSymbol
      and playerSymbol = playerSymbol and bestScore = NegInfinity and bestMove = "ms ! 0"]
  show ?thesis
  proof (elim disjE conjE exE)
    assume all: "\<forall>p \<in> set ms. ?sc p \<le> NegInfinity"
      and r: "bestLoop board botSymbol playerSymbol ms (ms ! 0) NegInfinity = ms ! 0"
    have "?sc (ms ! 0) = NegInfinity"
      using all assms by (cases "?sc (ms ! 0)") (auto dest!: bspec [where x = "ms ! 0"])
    then have "0 < length ms \<and> bestLoop board botSymbol playerSymbol ms (ms ! 0) NegInfinity = ms ! 0
        \<and> (\<forall>p \<in> set ms. ?sc p \<le> ?sc (ms ! 0)) \<and> (\<forall>j < 0. ?sc (ms ! j) < ?sc (ms ! 0))"
      using all r assms by simp
    then show ?thesis by blast
  next
    fix k
    assume "k < length ms"
      "bestLoop board botSymbol playerSymbol ms (ms ! 0) NegInfinity = ms ! k"
      "\<forall>p \<in> set ms. ?sc p \<le> ?sc (ms ! k)" "\<forall>j < k. ?sc (ms ! j) < ?sc (ms ! k)"
    then show ?thesis by blast
  qed
qed

lemma getAvailableMoves_sorted: "sorted (getAvailableMoves board)"
  unfolding getAvailableMoves_def by (rule sorted_wrt_filter) simp

lemma nonterminal_facts:
  assumes len: "length board = 9" and nt: "\<not> go_isOver (checkGameOver board)"
  shows "checkWinner board = Null" "\<not> isDraw board" "getAvailableMoves board \<noteq> []"
proof -
  from nt show w: "checkWinner board = Null" and d: "\<not> isDraw board"
    by (simp_all add: checkGameOver_def Let_def)
  from w d have "CHR ''-'' \<in> set board"
    by (simp add: isDraw_def)
  then obtain n where n: "n < length board" "board ! n = CHR ''-''"
    by (auto simp: in_set_conv_nth)
  then have "int n \<in> set (getAvailableMoves board)"
    using len by (simp add: getAvailableMoves_def cellAt_def)
  then show "getAvailableMoves board \<noteq> []"
    by auto
qed

lemma findBestMove_search:
  assumes "getAvailableMoves board \<noteq> []" "noShortcut board botSymbol playerSymbol"
  shows "findBestMove board botSymbol playerSymbol
     = bestLoop board botSymbol playerSymbol (getAvailableMoves board)
         (getAvailableMoves board ! 0) NegInfinity"
proof -
  from assms(2) have
    "find (\<lambda>p. checkWinner (makeMove board p botSymbol) = Str (symChar botSymbol))
       (getAvailableMoves board) = None"
    "find (\<lambda>p. checkWinner (makeMove board p playerSymbol) = Str (symChar playerSymbol))
       (getAvailableMoves board) = None"
    by (simp_all add: noShortcut_def find_None_iff list_all_iff)
  with assms show ?thesis
    by (auto simp: findBestMove_def noShortcut_def Let_def)
qed

text \<open>
  Claim C7. On a non-terminal board of nine cells to which no shortcut applies,
  \<^verbatim>\<open>findBestMove\<close> returns a legal move whose score is maximal among the legal moves,
  and no legal move with the same score has a smaller index.
\<close>

theorem findBestMove_first_maximum:
  assumes len: "length board = 9" and nt: "\<not> go_isOver (checkGameOver board)"
    and ns: "noShortcut board botSymbol playerSymbol"
  shows "findBestMove board botSymbol playerSymbol \<in> set (getAvailableMoves board)
    \<and> (\<forall>p \<in> set (getAvailableMoves board).
          rootScore board botSymbol playerSymbol p
            \<le> rootScore board botSymbol playerSymbol (findBestMove board botSymbol playerSymbol))
    \<and> (\<forall>p \<in> set (getAvailableMoves board).
          rootScore board botSymbol playerSymbol p
            = rootScore board botSymbol playerSymbol (findBestMove board botSymbol playerSymbol)
          \<longrightarrow> findBestMove board botSymbol playerSymbol \<le> p)"
proof -
  let ?ms = "getAvailableMoves board"
  let ?sc = "rootScore board botSymbol playerSymbol"
  let ?r = "findBestMove board botSymbol playerSymbol"
  have ne: "?ms \<noteq> []"
    using nonterminal_facts(3) [OF len nt] .
  from bestLoop_from_first [OF ne, of board botSymbol playerSymbol]
  obtain k where k: "k < length ?ms" and r: "?r = ?ms ! k"
    and mx: "\<forall>p \<in> set ?ms. ?sc p \<le> ?sc (?ms ! k)"
    and first: "\<forall>j < k. ?sc (?ms ! j) < ?sc (?ms ! k)"
    unfolding findBestMove_search [OF ne ns] by blast
  have "\<forall>p \<in> set ?ms. ?sc p = ?sc ?r \<longrightarrow> ?r \<le> p"
  proof (intro ballI impI)
    fix p assume "p \<in> set ?ms" and eq: "?sc p = ?sc ?r"
    then obtain j where j: "j < length ?ms" "p = ?ms ! j"
      by (auto simp: in_set_conv_nth)
    have "\<not> j < k"
      using first eq j r by auto
    then have "k \<le> j" by simp
    then show "?r \<le> p"
      unfolding r j(2) using getAvailableMoves_sorted j(1) by (simp add: sorted_nth_mono)
  qed
  with k r mx show ?thesis
    by simp
qed

theorem findBestMove_first_maximum_witness:
  "length ''---O-XXXO'' = 9 \<and> \<not> go_isOver (checkGameOver ''---O-XXXO'')
   \<and> noShortcut ''---O-XXXO'' SymO SymX
   \<and> map (rootScore ''---O-XXXO'' SymO SymX) (getAvailableMoves ''---O-XXXO'')
       = [Num (- 7), Num 0, Num 0, Num 0]
   \<and> getAvailableMoves ''---O-XXXO'' = [0, 1, 2, 4]
   \<and> findBestMove ''---O-XXXO'' SymO SymX \<in> set (getAvailableMoves ''---O-XXXO'')
   \<and> findBestMove ''---O-XXXO'' SymO SymX = 1"
proof -
  have a: "length ''---O-XXXO'' = 9"
    by simp
  have b: "\<not> go_isOver (checkGameOver ''---O-XXXO'')"
    by code_simp
  have c: "noShortcut ''---O-XXXO'' SymO SymX"
    by code_simp
  have d: "map (rootScore ''---O-XXXO'' SymO SymX) (getAvailableMoves ''---O-XXXO'')
      = [Num (- 7), Num 0, Num 0, Num 0]"
    by code_simp
  have e: "findBestMove ''---O-XXXO'' SymO SymX = 1"
    by code_simp
  have f: "getAvailableMoves ''---O-XXXO'' = [0, 1, 2, 4]"
    by code_simp
  from findBestMove_first_maximum [OF a b c] have
    "findBestMove ''---O-XXXO'' SymO SymX \<in> set (getAvailableMoves ''---O-XXXO'')"
    by simp
  with a b c d e f show ?thesis
    by simp
qed

section \<open>The sign of the score\<close>

lemma foldr_max_nonneg:
  "(Num 0 \<le> foldr max xs NegInfinity) = (\<exists>x \<in> set xs. Num 0 \<le> x)"
  by (induction xs) (simp_all add: le_max_iff_disj)

lemma foldr_min_nonneg:
  "(Num 0 \<le> foldr min xs Infinity) = (\<forall>x \<in> set xs. Num 0 \<le> x)"
  by (induction xs) simp_all

lemma canAvoidLoss_inner:
  assumes "checkWinner board \<noteq> Str (symChar actingSymbol)"
    "checkWinner board \<noteq> Str (symChar opponentSymbol)" "\<not> isDraw board"
  shows "canAvoidLoss board actingToMove actingSymbol opponentSymbol =
     (if actingToMove
      then \<exists>p \<in> set (getAvailableMoves board).
             canAvoidLoss (makeMove board p actingSymbol) False actingSymbol opponentSymbol
      else \<forall>p \<in> set (getAvailableMoves board).
             canAvoidLoss (makeMove board p opponentSymbol) True actingSymbol opponentSymbol)"
  using assms by (subst canAvoidLoss.simps) (simp add: list_ex_iff list_all_iff)

lemma canAvoidLoss_won:
  "checkWinner board = Str (symChar actingSymbol) \<Longrightarrow>
   canAvoidLoss board actingToMove actingSymbol opponentSymbol"
  by (subst canAvoidLoss.simps) simp

lemma canAvoidLoss_lost:
  "checkWinner board \<noteq> Str (symChar actingSymbol) \<Longrightarrow>
   checkWinner board = Str (symChar opponentSymbol) \<Longrightarrow>
   \<not> canAvoidLoss board actingToMove actingSymbol opponentSymbol"
  by (subst canAvoidLoss.simps) simp

lemma canAvoidLoss_drawn:
  "isDraw board \<Longrightarrow> checkWinner board \<noteq> Str (symChar opponentSymbol) \<Longrightarrow>
   canAvoidLoss board actingToMove actingSymbol opponentSymbol"
  by (subst canAvoidLoss.simps) simp

lemma exhaustive_sign:
  "depth + int (length (getAvailableMoves board)) \<le> 9 \<Longrightarrow>
   (Num 0 \<le> exhaustive board depth isMaximizing botSymbol playerSymbol)
     = canAvoidLoss board isMaximizing botSymbol playerSymbol"
proof (induction board depth isMaximizing botSymbol playerSymbol rule: exhaustive.induct)
  case (1 board depth isMaximizing botSymbol playerSymbol)
  from "1.prems" have d: "depth \<le> 9"
    by simp
  show ?case
  proof (cases "checkWinner board = Str (symChar botSymbol)")
    case True
    then show ?thesis
      using d by (simp add: exhaustive.simps [of board] canAvoidLoss_won)
  next
    case nb: False
    show ?thesis
    proof (cases "checkWinner board = Str (symChar playerSymbol)")
      case True
      then show ?thesis
        using d nb by (simp add: exhaustive.simps [of board] canAvoidLoss_lost)
    next
      case np: False
      show ?thesis
      proof (cases "isDraw board")
        case True
        then show ?thesis
          using nb np by (simp add: exhaustive.simps [of board] canAvoidLoss_drawn)
      next
        case nd: False
        have child: "depth + 1 + int (length (getAvailableMoves (makeMove board p s))) \<le> 9"
          if "p \<in> set (getAvailableMoves board)" for p s
          using getAvailableMoves_makeMove_less [OF that, of s] "1.prems" by simp
        show ?thesis
        proof (cases isMaximizing)
          case True
          have "(\<exists>p \<in> set (getAvailableMoves board).
                  Num 0 \<le> exhaustive (makeMove board p botSymbol) (depth + 1) False
                    botSymbol playerSymbol)
              = (\<exists>p \<in> set (getAvailableMoves board).
                  canAvoidLoss (makeMove board p botSymbol) False botSymbol playerSymbol)"
            using "1.IH"(1) [OF nb np nd True _ child] by blast
          then show ?thesis
            using True
            by (simp add: exhaustive_inner [OF nb np nd] canAvoidLoss_inner [OF nb np nd]
                foldr_max_nonneg)
        next
          case False
          have "(\<forall>p \<in> set (getAvailableMoves board).
                  Num 0 \<le> exhaustive (makeMove board p playerSymbol) (depth + 1) True
                    botSymbol playerSymbol)
              = (\<forall>p \<in> set (getAvailableMoves board).
                  canAvoidLoss (makeMove board p playerSymbol) True botSymbol playerSymbol)"
            using "1.IH"(2) [OF nb np nd False _ child] by blast
          then show ?thesis
            using False
            by (simp add: exhaustive_inner [OF nb np nd] canAvoidLoss_inner [OF nb np nd]
                foldr_min_nonneg)
        qed
      qed
    qed
  qed
qed

lemma rootScore_sign:
  assumes "p \<in> set (getAvailableMoves board)"
  shows "(Num 0 \<le> rootScore board botSymbol playerSymbol p)
     = canAvoidLoss (makeMove board p botSymbol) False botSymbol playerSymbol"
proof -
  have "length (getAvailableMoves board) \<le> 9"
    unfolding getAvailableMoves_def
    by (rule order_trans [OF length_filter_le]) simp
  with getAvailableMoves_makeMove_less [OF assms, of botSymbol]
  have "0 + int (length (getAvailableMoves (makeMove board p botSymbol))) \<le> 9"
    by simp
  from exhaustive_sign [OF this] show ?thesis
    by (simp add: rootScore_def minimax_full_window)
qed

section \<open>A threat has to be blocked\<close>

text \<open>
  When the opponent threatens to complete a triple at \<open>p\<close> and the acting side cannot
  win at once, every move other than \<open>p\<close> loses.
\<close>

lemma block_is_forced:
  assumes len: "length board = 9" and none: "checkWinner board = Null"
    and ne: "botSymbol \<noteq> playerSymbol"
    and nowin: "\<forall>q \<in> set (getAvailableMoves board).
      checkWinner (makeMove board q botSymbol) \<noteq> Str (symChar botSymbol)"
    and p: "p \<in> set (getAvailableMoves board)"
    and threat: "checkWinner (makeMove board p playerSymbol) = Str (symChar playerSymbol)"
    and m: "m \<in> set (getAvailableMoves board)"
    and ok: "canAvoidLoss (makeMove board m botSymbol) False botSymbol playerSymbol"
  shows "m = p"
proof (rule ccontr)
  assume mp: "m \<noteq> p"
  let ?b2 = "makeMove board m botSymbol"
  let ?b3 = "makeMove ?b2 p playerSymbol"
  note pc = available_cell [OF p] and mc = available_cell [OF m]
  have len2: "length ?b2 = 9"
    using length_makeMove [OF mc(1) mc(4)] len by simp
  have w2: "checkWinner ?b2 = Null"
    using moved_winner [OF len none, of m botSymbol] nowin m by blast
  have p2: "p \<in> set (getAvailableMoves ?b2)"
    using pc mp by (simp add: available_iff cellAt_makeMove [OF len])
  have "CHR ''-'' \<in> set ?b2"
  proof -
    from available_cell [OF p2] have "nat p < length ?b2" "?b2 ! nat p = CHR ''-''"
      by (auto simp: cellAt_def split: if_splits)
    then show ?thesis
      by (metis nth_mem)
  qed
  then have nd2: "\<not> isDraw ?b2"
    by (simp add: isDraw_def)
  have "\<forall>q \<in> set (getAvailableMoves ?b2).
      canAvoidLoss (makeMove ?b2 q playerSymbol) True botSymbol playerSymbol"
    using ok canAvoidLoss_inner [of ?b2 botSymbol playerSymbol False] w2 nd2 by simp
  with p2 have ok3: "canAvoidLoss ?b3 True botSymbol playerSymbol"
    by blast
  from moved_winner [OF len none, of p playerSymbol] threat
  have "completesTriple board p playerSymbol"
    by simp
  then obtain i j k where t: "(i, j, k) \<in> set WINNING_COMBINATIONS"
    and cells: "cellAt (makeMove board p playerSymbol) i = Str (symChar playerSymbol)"
      "cellAt (makeMove board p playerSymbol) j = Str (symChar playerSymbol)"
      "cellAt (makeMove board p playerSymbol) k = Str (symChar playerSymbol)"
    unfolding completesTriple_def list_ex_iff by auto
  note rng = winning_combination_range [OF t]
  have keep: "cellAt ?b3 x = Str (symChar playerSymbol)"
    if "0 \<le> x" "x \<le> 8" "cellAt (makeMove board p playerSymbol) x = Str (symChar playerSymbol)"
    for x
  proof (cases "x = p")
    case True
    then show ?thesis
      using that by (simp add: cellAt_makeMove [OF len2])
  next
    case False
    with that have old: "cellAt board x = Str (symChar playerSymbol)"
      by (simp add: cellAt_makeMove [OF len])
    with mc(3) have "x \<noteq> m"
      by auto
    with False old that show ?thesis
      by (simp add: cellAt_makeMove [OF len2] cellAt_makeMove [OF len])
  qed
  have "lineComplete ?b3 (i, j, k)"
    using keep rng cells by (simp add: lineComplete_def)
  with t have "checkWinner ?b3 \<noteq> Null"
    unfolding checkWinner_def by (rule checkWinnerLoop_complete)
  with moved_winner [OF len2 w2, of p playerSymbol]
  have w3: "checkWinner ?b3 = Str (symChar playerSymbol)"
    by simp
  with ne have "checkWinner ?b3 \<noteq> Str (symChar botSymbol)"
    by simp
  from canAvoidLoss_lost [OF this w3] ok3 show False
    by simp
qed

section \<open>Evaluating boards of nine cells\<close>

lemma cellAt_board9:
  "cellAt [a, b, c, d, e, f, g, h, i] 0 = Str a"
  "cellAt [a, b, c, d, e, f, g, h, i] 1 = Str b"
  "cellAt [a, b, c, d, e, f, g, h, i] 2 = Str c"
  "cellAt [a, b, c, d, e, f, g, h, i] 3 = Str d"
  "cellAt [a, b, c, d, e, f, g, h, i] 4 = Str e"
  "cellAt [a, b, c, d, e, f, g, h, i] 5 = Str f"
  "cellAt [a, b, c, d, e, f, g, h, i] 6 = Str g"
  "cellAt [a, b, c, d, e, f, g, h, i] 7 = Str h"
  "cellAt [a, b, c, d, e, f, g, h, i] 8 = Str i"
  by (simp_all add: cellAt_def)

lemma checkWinner_board9:
  "checkWinner [a, b, c, d, e, f, g, h, i] =
     (if a \<noteq> CHR ''-'' \<and> a = b \<and> b = c then Str a
      else if d \<noteq> CHR ''-'' \<and> d = e \<and> e = f then Str d
      else if g \<noteq> CHR ''-'' \<and> g = h \<and> h = i then Str g
      else if a \<noteq> CHR ''-'' \<and> a = d \<and> d = g then Str a
      else if b \<noteq> CHR ''-'' \<and> b = e \<and> e = h then Str b
      else if c \<noteq> CHR ''-'' \<and> c = f \<and> f = i then Str c
      else if a \<noteq> CHR ''-'' \<and> a = e \<and> e = i then Str a
      else if c \<noteq> CHR ''-'' \<and> c = e \<and> e = g then Str c
      else Null)"
  by (simp only: checkWinner_def WINNING_COMBINATIONS_def checkWinnerLoop.simps
      lineComplete_def prod.case fst_conv cellAt_board9 jsval.inject)

lemma getAvailableMoves_board9:
  "getAvailableMoves [a, b, c, d, e, f, g, h, i] =
     (if a = CHR ''-'' then [0] else []) @ (if b = CHR ''-'' then [1] else [])
     @ (if c = CHR ''-'' then [2] else []) @ (if d = CHR ''-'' then [3] else [])
     @ (if e = CHR ''-'' then [4] else []) @ (if f = CHR ''-'' then [5] else [])
     @ (if g = CHR ''-'' then [6] else []) @ (if h = CHR ''-'' then [7] else [])
     @ (if i = CHR ''-'' then [8] else []) @ []"
proof -
  have u: "[0..8] = [0, 1, 2, 3, 4, 5, 6, 7, 8 :: int]"
    by (simp add: upto_rec1)
  show ?thesis
    unfolding getAvailableMoves_def u by (simp add: cellAt_board9)
qed

lemma makeMove_board9:
  "makeMove [a, b, c, d, e, f, g, h, i] 0 s = [symChar s, b, c, d, e, f, g, h, i]"
  "makeMove [a, b, c, d, e, f, g, h, i] 1 s = [a, symChar s, c, d, e, f, g, h, i]"
  "makeMove [a, b, c, d, e, f, g, h, i] 2 s = [a, b, symChar s, d, e, f, g, h, i]"
  "makeMove [a, b, c, d, e, f, g, h, i] 3 s = [a, b, c, symChar s, e, f, g, h, i]"
  "makeMove [a, b, c, d, e, f, g, h, i] 4 s = [a, b, c, d, symChar s, f, g, h, i]"
  "makeMove [a, b, c, d, e, f, g, h, i] 5 s = [a, b, c, d, e, symChar s, g, h, i]"
  "makeMove [a, b, c, d, e, f, g, h, i] 6 s = [a, b, c, d, e, f, symChar s, h, i]"
  "makeMove [a, b, c, d, e, f, g, h, i] 7 s = [a, b, c, d, e, f, g, symChar s, i]"
  "makeMove [a, b, c, d, e, f, g, h, i] 8 s = [a, b, c, d, e, f, g, h, symChar s]"
  by (simp_all add: makeMove_def)

lemma isDraw_board9:
  "isDraw [a, b, c, d, e, f, g, h, i] =
     (if a = CHR ''-'' \<or> b = CHR ''-'' \<or> c = CHR ''-'' \<or> d = CHR ''-'' \<or> e = CHR ''-''
         \<or> f = CHR ''-'' \<or> g = CHR ''-'' \<or> h = CHR ''-'' \<or> i = CHR ''-''
      then False else \<not> truthy (checkWinner [a, b, c, d, e, f, g, h, i]))"
  by (auto simp: isDraw_def)

lemma list_ex_option_step:
  "list_ex P ((if c then [x] else []) @ xs)
     = (if (if c then P x else False) then True else list_ex P xs)"
  by simp

lemma list_all_option_step:
  "list_all P ((if c then [x] else []) @ xs)
     = (if (if c then P x else True) then list_all P xs else False)"
  by simp

lemma canAvoidLoss_board9:
  "canAvoidLoss [a, b, c, d, e, f, g, h, i] m act opp =
     (if checkWinner [a, b, c, d, e, f, g, h, i] = Str (symChar act) then True
      else if checkWinner [a, b, c, d, e, f, g, h, i] = Str (symChar opp) then False
      else if isDraw [a, b, c, d, e, f, g, h, i] then True
      else if m then
        (if (if a = CHR ''-''
             then canAvoidLoss [symChar act, b, c, d, e, f, g, h, i] False act opp else False)
         then True
         else if (if b = CHR ''-''
             then canAvoidLoss [a, symChar act, c, d, e, f, g, h, i] False act opp else False)
         then True
         else if (if c = CHR ''-''
             then canAvoidLoss [a, b, symChar act, d, e, f, g, h, i] False act opp else False)
         then True
         else if (if d = CHR ''-''
             then canAvoidLoss [a, b, c, symChar act, e, f, g, h, i] False act opp else False)
         then True
         else if (if e = CHR ''-''
             then canAvoidLoss [a, b, c, d, symChar act, f, g, h, i] False act opp else False)
         then True
         else if (if f = CHR ''-''
             then canAvoidLoss [a, b, c, d, e, symChar act, g, h, i] False act opp else False)
         then True
         else if (if g = CHR ''-''
             then canAvoidLoss [a, b, c, d, e, f, symChar act, h, i] False act opp else False)
         then True
         else if (if h = CHR ''-''
             then canAvoidLoss [a, b, c, d, e, f, g, symChar act, i] False act opp else False)
         then True
         else if (if i = CHR ''-''
             then canAvoidLoss [a, b, c, d, e, f, g, h, symChar act] False act opp else False)
         then True
         else False)
      else
        (if (if a = CHR ''-''
             then canAvoidLoss [symChar opp, b, c, d, e, f, g, h, i] True act opp else True)
         then
         (if (if b = CHR ''-''
             then canAvoidLoss [a, symChar opp, c, d, e, f, g, h, i] True act opp else True)
         then
         (if (if c = CHR ''-''
             then canAvoidLoss [a, b, symChar opp, d, e, f, g, h, i] True act opp else True)
         then
         (if (if d = CHR ''-''
             then canAvoidLoss [a, b, c, symChar opp, e, f, g, h, i] True act opp else True)
         then
         (if (if e = CHR ''-''
             then canAvoidLoss [a, b, c, d, symChar opp, f, g, h, i] True act opp else True)
         then
         (if (if f = CHR ''-''
             then canAvoidLoss [a, b, c, d, e, symChar opp, g, h, i] True act opp else True)
         then
         (if (if g = CHR ''-''
             then canAvoidLoss [a, b, c, d, e, f, symChar opp, h, i] True act opp else True)
         then
         (if (if h = CHR ''-''
             then canAvoidLoss [a, b, c, d, e, f, g, symChar opp, i] True act opp else True)
         then
         (if (if i = CHR ''-''
             then canAvoidLoss [a, b, c, d, e, f, g, h, symChar opp] True act opp else True)
         then True else False)
         else False) else False) else False) else False) else False) else False)
         else False) else False))"
  apply (subst canAvoidLoss.simps)
  apply (simp only: getAvailableMoves_board9 list_ex_option_step list_all_option_step
      list_ex_Nil_iff list_all_Nil_iff makeMove_board9)
  done

lemma cell_chars:
  "(CHR ''X'' = CHR ''-'') = False" "(CHR ''O'' = CHR ''-'') = False"
  "(CHR ''-'' = CHR ''X'') = False" "(CHR ''-'' = CHR ''O'') = False"
  "(CHR ''X'' = CHR ''O'') = False" "(CHR ''O'' = CHR ''X'') = False"
  by simp_all

lemmas board9_only =
  canAvoidLoss_board9 checkWinner_board9 isDraw_board9 symChar.simps cell_chars
  jsval.inject jsval.distinct truthy.simps if_True if_False simp_thms

text \<open>
  After the reply on the centre to an empty board or to a board with one mark, the side
  that took the centre does not lose.
\<close>

lemma centre_is_safe:
  "canAvoidLoss ''----X----'' False SymX SymO"
  "canAvoidLoss ''X---X----'' False SymX SymO"
  "canAvoidLoss ''O---X----'' False SymX SymO"
  "canAvoidLoss ''-X--X----'' False SymX SymO"
  "canAvoidLoss ''-O--X----'' False SymX SymO"
  "canAvoidLoss ''--X-X----'' False SymX SymO"
  "canAvoidLoss ''--O-X----'' False SymX SymO"
  "canAvoidLoss ''---XX----'' False SymX SymO"
  "canAvoidLoss ''---OX----'' False SymX SymO"
  "canAvoidLoss ''----XX---'' False SymX SymO"
  "canAvoidLoss ''----XO---'' False SymX SymO"
  "canAvoidLoss ''----X-X--'' False SymX SymO"
  "canAvoidLoss ''----X-O--'' False SymX SymO"
  "canAvoidLoss ''----X--X-'' False SymX SymO"
  "canAvoidLoss ''----X--O-'' False SymX SymO"
  "canAvoidLoss ''----X---X'' False SymX SymO"
  "canAvoidLoss ''----X---O'' False SymX SymO"
  "canAvoidLoss ''----O----'' False SymO SymX"
  "canAvoidLoss ''X---O----'' False SymO SymX"
  "canAvoidLoss ''O---O----'' False SymO SymX"
  "canAvoidLoss ''-X--O----'' False SymO SymX"
  "canAvoidLoss ''-O--O----'' False SymO SymX"
  "canAvoidLoss ''--X-O----'' False SymO SymX"
  "canAvoidLoss ''--O-O----'' False SymO SymX"
  "canAvoidLoss ''---XO----'' False SymO SymX"
  "canAvoidLoss ''---OO----'' False SymO SymX"
  "canAvoidLoss ''----OX---'' False SymO SymX"
  "canAvoidLoss ''----OO---'' False SymO SymX"
  "canAvoidLoss ''----O-X--'' False SymO SymX"
  "canAvoidLoss ''----O-O--'' False SymO SymX"
  "canAvoidLoss ''----O--X-'' False SymO SymX"
  "canAvoidLoss ''----O--O-'' False SymO SymX"
  "canAvoidLoss ''----O---X'' False SymO SymX"
  "canAvoidLoss ''----O---O'' False SymO SymX"
  by (simp_all only: board9_only cong: if_weak_cong)

section \<open>The two opening shortcuts\<close>

lemma board9_cases:
  assumes "length board = 9"
  obtains a b c d e f g h i where "board = [a, b, c, d, e, f, g, h, i]"
proof -
  from assms obtain a b c d e f g h i where "board = [a, b, c, d, e, f, g, h, i]"
    by (auto simp: eval_nat_numeral length_Suc_conv)
  then show ?thesis
    by (rule that)
qed

lemma occupied_count:
  "length (filter (\<lambda>i. cellAt board i \<noteq> Str CHR ''-'') [0..8])
     = 9 - length (getAvailableMoves board)"
proof -
  have "length (getAvailableMoves board)
      + length (filter (\<lambda>i. \<not> cellAt board i = Str CHR ''-'') [0..8]) = length [0..8 :: int]"
    unfolding getAvailableMoves_def by (rule sum_length_filter_compl)
  then show ?thesis
    by simp
qed

lemma empty_board_only:
  assumes len: "length board = 9" and all: "length (getAvailableMoves board) = 9"
  shows "board = ''---------''"
proof -
  from occupied_count [of board] all
  have "filter (\<lambda>i. cellAt board i \<noteq> Str CHR ''-'') [0..8] = []"
    by simp
  then have free: "\<forall>i \<in> set [0..8]. cellAt board i = Str CHR ''-''"
    by (simp add: filter_empty_conv)
  from len obtain a b c d e f g h i where b: "board = [a, b, c, d, e, f, g, h, i]"
    by (rule board9_cases)
  from free have "cellAt board 0 = Str CHR ''-''" "cellAt board 1 = Str CHR ''-''"
    "cellAt board 2 = Str CHR ''-''" "cellAt board 3 = Str CHR ''-''"
    "cellAt board 4 = Str CHR ''-''" "cellAt board 5 = Str CHR ''-''"
    "cellAt board 6 = Str CHR ''-''" "cellAt board 7 = Str CHR ''-''"
    "cellAt board 8 = Str CHR ''-''"
    by simp_all
  then show ?thesis
    unfolding b by (simp add: cellAt_board9)
qed

lemma one_mark_boards:
  assumes wf: "wellFormed board" and eight: "length (getAvailableMoves board) = 8"
    and centre: "cellAt board 4 = Str CHR ''-''"
  shows "board \<in> set
     [''X--------'', ''O--------'', ''-X-------'', ''-O-------'',
      ''--X------'', ''--O------'', ''---X-----'', ''---O-----'',
      ''-----X---'', ''-----O---'', ''------X--'', ''------O--'',
      ''-------X-'', ''-------O-'', ''--------X'', ''--------O'']"
proof -
  let ?occ = "\<lambda>i. cellAt board i \<noteq> Str CHR ''-''"
  from wf have len: "length board = 9"
    by (simp add: wellFormed_def)
  from occupied_count [of board] eight have "length (filter ?occ [0..8]) = 1"
    by simp
  then obtain k where k: "filter ?occ [0..8] = [k]"
    by (auto simp: length_Suc_conv eval_nat_numeral)
  then have "set (filter ?occ [0..8]) = {k}"
    by simp
  then have only: "\<And>i. 0 \<le> i \<Longrightarrow> i \<le> 8 \<Longrightarrow> i \<noteq> k \<Longrightarrow> cellAt board i = Str CHR ''-''"
    and kocc: "?occ k" and krng: "0 \<le> k" "k \<le> 8"
    by auto
  from len obtain a b c d e f g h i where b: "board = [a, b, c, d, e, f, g, h, i]"
    by (rule board9_cases)
  from wf have chars: "\<forall>x \<in> set board. x = CHR ''-'' \<or> x = CHR ''X'' \<or> x = CHR ''O''"
    by (simp add: wellFormed_def list_all_iff)
  from krng have "k = 0 \<or> k = 1 \<or> k = 2 \<or> k = 3 \<or> k = 4 \<or> k = 5 \<or> k = 6 \<or> k = 7 \<or> k = 8"
    by arith
  then show ?thesis
  proof (elim disjE)
    assume "k = 0"
    with only [of 1] only [of 2] only [of 3] only [of 4] only [of 5] only [of 6] only [of 7]
      only [of 8] kocc chars
    show ?thesis unfolding b by (auto simp: cellAt_board9)
  next
    assume "k = 1"
    with only [of 0] only [of 2] only [of 3] only [of 4] only [of 5] only [of 6] only [of 7]
      only [of 8] kocc chars
    show ?thesis unfolding b by (auto simp: cellAt_board9)
  next
    assume "k = 2"
    with only [of 0] only [of 1] only [of 3] only [of 4] only [of 5] only [of 6] only [of 7]
      only [of 8] kocc chars
    show ?thesis unfolding b by (auto simp: cellAt_board9)
  next
    assume "k = 3"
    with only [of 0] only [of 1] only [of 2] only [of 4] only [of 5] only [of 6] only [of 7]
      only [of 8] kocc chars
    show ?thesis unfolding b by (auto simp: cellAt_board9)
  next
    assume "k = 4"
    with kocc centre show ?thesis by simp
  next
    assume "k = 5"
    with only [of 0] only [of 1] only [of 2] only [of 3] only [of 4] only [of 6] only [of 7]
      only [of 8] kocc chars
    show ?thesis unfolding b by (auto simp: cellAt_board9)
  next
    assume "k = 6"
    with only [of 0] only [of 1] only [of 2] only [of 3] only [of 4] only [of 5] only [of 7]
      only [of 8] kocc chars
    show ?thesis unfolding b by (auto simp: cellAt_board9)
  next
    assume "k = 7"
    with only [of 0] only [of 1] only [of 2] only [of 3] only [of 4] only [of 5] only [of 6]
      only [of 8] kocc chars
    show ?thesis unfolding b by (auto simp: cellAt_board9)
  next
    assume "k = 8"
    with only [of 0] only [of 1] only [of 2] only [of 3] only [of 4] only [of 5] only [of 6]
      only [of 7] kocc chars
    show ?thesis unfolding b by (auto simp: cellAt_board9)
  qed
qed

lemma centre_reply_safe:
  assumes "board \<in> set
     [''---------'',
      ''X--------'', ''O--------'', ''-X-------'', ''-O-------'',
      ''--X------'', ''--O------'', ''---X-----'', ''---O-----'',
      ''-----X---'', ''-----O---'', ''------X--'', ''------O--'',
      ''-------X-'', ''-------O-'', ''--------X'', ''--------O'']"
    and "botSymbol \<noteq> playerSymbol"
  shows "canAvoidLoss (makeMove board 4 botSymbol) False botSymbol playerSymbol"
  using assms
  by (cases botSymbol; cases playerSymbol) (auto simp: makeMove_board9 centre_is_safe)

section \<open>The move of the search engine does not lose\<close>

lemma findBestMove_empty:
  "length (getAvailableMoves board) = 9 \<Longrightarrow> findBestMove board botSymbol playerSymbol = 4"
  by (auto simp: findBestMove_def Let_def)

lemma findBestMove_centre:
  "length (getAvailableMoves board) = 8 \<Longrightarrow> cellAt board 4 = Str CHR ''-'' \<Longrightarrow>
   findBestMove board botSymbol playerSymbol = 4"
  by (auto simp: findBestMove_def Let_def)

lemma findBestMove_win:
  assumes "getAvailableMoves board \<noteq> []" "length (getAvailableMoves board) \<noteq> 9"
    "\<not> (length (getAvailableMoves board) = 8 \<and> cellAt board 4 = Str CHR ''-'')"
    "find (\<lambda>p. checkWinner (makeMove board p botSymbol) = Str (symChar botSymbol))
       (getAvailableMoves board) = Some q"
  shows "findBestMove board botSymbol playerSymbol = q"
  using assms by (auto simp: findBestMove_def Let_def)

lemma findBestMove_block:
  assumes "getAvailableMoves board \<noteq> []" "length (getAvailableMoves board) \<noteq> 9"
    "\<not> (length (getAvailableMoves board) = 8 \<and> cellAt board 4 = Str CHR ''-'')"
    "find (\<lambda>p. checkWinner (makeMove board p botSymbol) = Str (symChar botSymbol))
       (getAvailableMoves board) = None"
    "find (\<lambda>p. checkWinner (makeMove board p playerSymbol) = Str (symChar playerSymbol))
       (getAvailableMoves board) = Some q"
  shows "findBestMove board botSymbol playerSymbol = q"
  using assms by (auto simp: findBestMove_def Let_def)

lemma findBestMove_safe:
  assumes wf: "wellFormed board" and nt: "\<not> go_isOver (checkGameOver board)"
    and ne: "botSymbol \<noteq> playerSymbol"
    and alive: "canAvoidLoss board True botSymbol playerSymbol"
  shows "findBestMove board botSymbol playerSymbol \<in> set (getAvailableMoves board)
    \<and> canAvoidLoss (makeMove board (findBestMove board botSymbol playerSymbol) botSymbol)
        False botSymbol playerSymbol"
proof -
  let ?ms = "getAvailableMoves board"
  let ?r = "findBestMove board botSymbol playerSymbol"
  let ?win = "\<lambda>p. checkWinner (makeMove board p botSymbol) = Str (symChar botSymbol)"
  let ?threat = "\<lambda>p. checkWinner (makeMove board p playerSymbol) = Str (symChar playerSymbol)"
  from wf have len: "length board = 9"
    by (simp add: wellFormed_def)
  note w = nonterminal_facts(1) [OF len nt] and nd = nonterminal_facts(2) [OF len nt]
    and avne = nonterminal_facts(3) [OF len nt]
  from alive w nd obtain m where m: "m \<in> set ?ms"
    and okm: "canAvoidLoss (makeMove board m botSymbol) False botSymbol playerSymbol"
    using canAvoidLoss_inner [of board botSymbol playerSymbol True] by auto
  consider (empty) "length ?ms = 9"
    | (centre) "length ?ms \<noteq> 9" "length ?ms = 8" "cellAt board 4 = Str CHR ''-''"
    | (search) "length ?ms \<noteq> 9" "\<not> (length ?ms = 8 \<and> cellAt board 4 = Str CHR ''-'')"
    by blast
  then show ?thesis
  proof cases
    case empty
    then have b: "board = ''---------''"
      using len by (rule empty_board_only [rotated])
    have "4 \<in> set ?ms"
      unfolding b by (simp add: getAvailableMoves_board9)
    moreover have "canAvoidLoss (makeMove board 4 botSymbol) False botSymbol playerSymbol"
      by (rule centre_reply_safe [OF _ ne]) (simp add: b)
    ultimately show ?thesis
      by (simp add: findBestMove_empty [OF empty])
  next
    case centre
    have "4 \<in> set ?ms"
      using centre(3) by (simp add: available_iff)
    moreover have "canAvoidLoss (makeMove board 4 botSymbol) False botSymbol playerSymbol"
      using one_mark_boards [OF wf centre(2,3)] by (intro centre_reply_safe [OF _ ne]) simp
    ultimately show ?thesis
      by (simp add: findBestMove_centre [OF centre(2,3)])
  next
    case search
    show ?thesis
    proof (cases "find ?win ?ms")
      case (Some q)
      then have "q \<in> set ?ms" "?win q"
        by (auto simp: find_Some_iff)
      then show ?thesis
        unfolding findBestMove_win [OF avne search Some] by (simp add: canAvoidLoss_won)
    next
      case nowin: None
      then have nw: "\<forall>q \<in> set ?ms. \<not> ?win q"
        by (simp add: find_None_iff)
      show ?thesis
      proof (cases "find ?threat ?ms")
        case (Some q)
        then have q: "q \<in> set ?ms" "?threat q"
          by (auto simp: find_Some_iff)
        have "m = q"
          using block_is_forced [OF len w ne _ q m okm] nw by blast
        with okm q(1) show ?thesis
          unfolding findBestMove_block [OF avne search nowin Some] by simp
      next
        case None
        then have "\<forall>q \<in> set ?ms. \<not> ?threat q"
          by (simp add: find_None_iff)
        with nw search have ns: "noShortcut board botSymbol playerSymbol"
          by (simp add: noShortcut_def list_all_iff)
        from bestLoop_from_first [OF avne, of board botSymbol playerSymbol]
        obtain k where k: "k < length ?ms" and r: "?r = ?ms ! k"
          and mx: "\<forall>p \<in> set ?ms. rootScore board botSymbol playerSymbol p
             \<le> rootScore board botSymbol playerSymbol (?ms ! k)"
          unfolding findBestMove_search [OF avne ns] by blast
        from k have rin: "?ms ! k \<in> set ?ms"
          by simp
        from okm have "Num 0 \<le> rootScore board botSymbol playerSymbol m"
          by (simp add: rootScore_sign [OF m])
        also have "\<dots> \<le> rootScore board botSymbol playerSymbol (?ms ! k)"
          using mx m by blast
        finally have "canAvoidLoss (makeMove board (?ms ! k) botSymbol) False
            botSymbol playerSymbol"
          by (simp add: rootScore_sign [OF rin])
        with rin show ?thesis
          unfolding r by simp
      qed
    qed
  qed
qed

text \<open>
  Claim C2, as amended. On a non-terminal board of nine cells over X, O and empty, for
  either acting symbol with the other one as the opponent: when the acting side, to move,
  is not lost already, the cell that \<^verbatim>\<open>findBestMove\<close> returns is available, and after it
  is played the acting side still does not lose, whatever the opponent answers.
\<close>

theorem findBestMove_never_loses:
  assumes "wellFormed board" and "\<not> go_isOver (checkGameOver board)"
    and "botSymbol \<noteq> playerSymbol"
    and "canAvoidLoss board True botSymbol playerSymbol"
  shows "findBestMove board botSymbol playerSymbol \<in> set (getAvailableMoves board)
    \<and> canAvoidLoss (makeMove board (findBestMove board botSymbol playerSymbol) botSymbol)
        False botSymbol playerSymbol"
  using assms by (rule findBestMove_safe)

text \<open>The position of \<^verbatim>\<open>test_bot_crash.js\<close>: O to move wins at once on cell 1.\<close>

theorem findBestMove_never_loses_witness:
  "wellFormed ''X---O-XOX'' \<and> \<not> go_isOver (checkGameOver ''X---O-XOX'')
   \<and> SymO \<noteq> SymX \<and> canAvoidLoss ''X---O-XOX'' True SymO SymX
   \<and> findBestMove ''X---O-XOX'' SymO SymX = 1
   \<and> canAvoidLoss (makeMove ''X---O-XOX'' 1 SymO) False SymO SymX"
proof -
  have a: "wellFormed ''X---O-XOX''"
    by (simp add: wellFormed_def)
  have b: "\<not> go_isOver (checkGameOver ''X---O-XOX'')"
    by code_simp
  have c: "SymO \<noteq> SymX"
    by simp
  have d: "canAvoidLoss ''X---O-XOX'' True SymO SymX"
    by (simp only: board9_only cong: if_weak_cong)
  have e: "findBestMove ''X---O-XOX'' SymO SymX = 1"
    by code_simp
  from findBestMove_never_loses [OF a b c d] a b c d e show ?thesis
    by simp
qed

text \<open>
  Claim C2 as stated fails on a board on which the acting side is lost. After X on 0,
  O on 4, X on 2, O on 8 and X on 6, O is to move and X threatens cells 1 and 3:
  \<^verbatim>\<open>findBestMove\<close> blocks cell 1, X completes the left column on cell 3.
\<close>

theorem findBestMove_never_loses_counterexample:
  "foldl (\<lambda>b (p, s). makeMove b p s) ''---------''
      [(0, SymX), (4, SymO), (2, SymX), (8, SymO), (6, SymX)] = ''X-X-O-X-O''
   \<and> \<not> go_isOver (checkGameOver ''X-X-O-X-O'')
   \<and> findBestMove ''X-X-O-X-O'' SymO SymX = 1
   \<and> checkWinner (makeMove (makeMove ''X-X-O-X-O'' 1 SymO) 3 SymX) = Str CHR ''X''
   \<and> \<not> canAvoidLoss (makeMove ''X-X-O-X-O'' (findBestMove ''X-X-O-X-O'' SymO SymX) SymO)
        False SymO SymX"
  by code_simp

section \<open>The move log\<close>



















end
